theory Spec2Isabelle
  imports Main "HOL-Library.Sublist"
begin

section \<open>The graph access interface\<close>

text \<open>
  The component functions of \<^verbatim>\<open>src/components/index.js\<close> work on a graphology graph,
  which they only reach through its interface (\<^verbatim>\<open>order\<close>, \<^verbatim>\<open>size\<close>, \<^verbatim>\<open>type\<close>,
  \<^verbatim>\<open>forEachNode\<close>, \<^verbatim>\<open>forEachNeighbor\<close>, ...). The graph library itself is not part of
  the sources, so the interface is modelled here from the description of the
  specification: a graph is a list of nodes with their attributes, in enumeration
  order, a list of edges, and a directionality flag.
\<close>

datatype graph_type = Directed | Undirected | Mixed

record ('n, 'e, 'a) edge =
  key :: 'e
  attr :: 'a
  source :: 'n
  target :: 'n
  undirected :: bool

record ('n, 'e, 'a) graph =
  type :: graph_type
  node_entries :: "('n \<times> 'a) list"
  edge_entries :: "('n, 'e, 'a) edge list"

text \<open>Modelled from the spec: \<^verbatim>\<open>graph.order\<close>, the node count.\<close>

definition order :: "('n, 'e, 'a) graph \<Rightarrow> nat" where
  "order g = length (node_entries g)"

text \<open>Modelled from the spec: \<^verbatim>\<open>graph.size\<close>, the edge count.\<close>

definition size_g :: "('n, 'e, 'a) graph \<Rightarrow> nat" where
  "size_g g = length (edge_entries g)"

text \<open>Modelled from the spec: \<^verbatim>\<open>graph.nodes()\<close>, all node keys in the graph's stable
  enumeration order, which is also the order of \<^verbatim>\<open>forEachNode\<close> and \<^verbatim>\<open>someNode\<close>.\<close>

definition nodes :: "('n, 'e, 'a) graph \<Rightarrow> 'n list" where
  "nodes g = map fst (node_entries g)"

text \<open>Keeps the first occurrence of every element.\<close>

definition dedup :: "'x list \<Rightarrow> 'x list" where
  "dedup xs = rev (remdups (rev xs))"

text \<open>Modelled from the spec: the neighbors of a node along its inbound, its outbound
  and its undirected edges, in the order of the edges. An edge of a graph is directed
  from its source to its target unless it is flagged undirected.\<close>

definition in_neighbors :: "('n, 'e, 'a) graph \<Rightarrow> 'n \<Rightarrow> 'n list" where
  "in_neighbors g v =
     map source (filter (\<lambda>e. \<not> undirected e \<and> target e = v) (edge_entries g))"

definition out_neighbors :: "('n, 'e, 'a) graph \<Rightarrow> 'n \<Rightarrow> 'n list" where
  "out_neighbors g v =
     map target (filter (\<lambda>e. \<not> undirected e \<and> source e = v) (edge_entries g))"

definition undirected_neighbors :: "('n, 'e, 'a) graph \<Rightarrow> 'n \<Rightarrow> 'n list" where
  "undirected_neighbors g v =
     map (\<lambda>e. if source e = v then target e else source e)
       (filter (\<lambda>e. undirected e \<and> (source e = v \<or> target e = v)) (edge_entries g))"

text \<open>Modelled from the spec: \<^verbatim>\<open>graph.forEachNeighbor(node, callback)\<close>, the neighbors of
  a node in the undirected sense (inbound, outbound and undirected edges all count),
  each passed once to the callback; the list is the sequence of callback arguments.\<close>

definition forEachNeighbor :: "('n, 'e, 'a) graph \<Rightarrow> 'n \<Rightarrow> 'n list" where
  "forEachNeighbor g v =
     dedup (in_neighbors g v @ out_neighbors g v @ undirected_neighbors g v)"

text \<open>Modelled from the spec: \<^verbatim>\<open>graph.outboundNeighbors(node)\<close>, the neighbors reached
  by leaving the node along an edge.\<close>

definition outboundNeighbors :: "('n, 'e, 'a) graph \<Rightarrow> 'n \<Rightarrow> 'n list" where
  "outboundNeighbors g v = dedup (out_neighbors g v @ undirected_neighbors g v)"

text \<open>Modelled from the spec: \<^verbatim>\<open>graph.nullCopy()\<close>, the factory of an empty graph of the
  same kind.\<close>

definition nullCopy :: "('n, 'e, 'a) graph \<Rightarrow> ('n, 'e, 'a) graph" where
  "nullCopy g = g\<lparr>node_entries := [], edge_entries := []\<rparr>"

text \<open>Modelled from the spec: \<^verbatim>\<open>graph.getNodeAttributes(key)\<close>, the node attribute
  reader; a key that is no node of the graph has no attributes.\<close>

definition getNodeAttributes :: "('n, 'e, 'a) graph \<Rightarrow> 'n \<Rightarrow> 'a option" where
  "getNodeAttributes g k = map_of (node_entries g) k"

text \<open>Modelled from the spec: \<^verbatim>\<open>graph.hasNode(key)\<close>.\<close>

definition hasNode :: "('n, 'e, 'a) graph \<Rightarrow> 'n \<Rightarrow> bool" where
  "hasNode g k \<longleftrightarrow> k \<in> set (nodes g)"

text \<open>Modelled from the spec: \<^verbatim>\<open>copyNode(graph, key, attributes)\<close> of the attribute
  copying helpers, which adds the node with these attributes.\<close>

definition copyNode :: "('n, 'e, 'a) graph \<Rightarrow> 'n \<Rightarrow> 'a \<Rightarrow> ('n, 'e, 'a) graph" where
  "copyNode g k attrs = g\<lparr>node_entries := node_entries g @ [(k, attrs)]\<rparr>"

text \<open>Modelled from the spec: \<^verbatim>\<open>copyEdge(graph, undirected, key, source, target, attributes)\<close>
  of the attribute copying helpers, which adds the edge with its key, attributes and
  directionality.\<close>

definition copyEdge ::
  "('n, 'e, 'a) graph \<Rightarrow> bool \<Rightarrow> 'e \<Rightarrow> 'n \<Rightarrow> 'n \<Rightarrow> 'a \<Rightarrow> ('n, 'e, 'a) graph" where
  "copyEdge g u k s t attrs =
     g\<lparr>edge_entries := edge_entries g @
          [\<lparr>key = k, attr = attrs, source = s, target = t, undirected = u\<rparr>]\<rparr>"

text \<open>Modelled from the spec: \<^verbatim>\<open>graph.dropNode(key)\<close>, the node deletion, which also
  deletes the edges attached to the node.\<close>

definition dropNode :: "('n, 'e, 'a) graph \<Rightarrow> 'n \<Rightarrow> ('n, 'e, 'a) graph" where
  "dropNode g k =
     g\<lparr>node_entries := filter (\<lambda>entry. fst entry \<noteq> k) (node_entries g),
       edge_entries := filter (\<lambda>e. source e \<noteq> k \<and> target e \<noteq> k) (edge_entries g)\<rparr>"

text \<open>What the functions throw: the error of \<^verbatim>\<open>stronglyConnectedComponents\<close> on an
  undirected graph, and the error of the graph when it is asked for the attributes of a
  key that is no node. A value of type \<open>graph\<close> is a graph, so the \<^verbatim>\<open>isGraph\<close> test of
  every function succeeds and its error has no branch.\<close>

datatype error = WrongDirectionality | NotFound

section \<open>Weak components\<close>

text \<open>
  The three weak traversals keep a set \<^verbatim>\<open>seen\<close> and an array \<^verbatim>\<open>stack\<close>
  used with \<^verbatim>\<open>push\<close> and \<^verbatim>\<open>pop\<close> only. The array is held as a list whose head is
  the top of the stack (the last element of the array), so that
  \<^verbatim>\<open>graph.forEachNeighbor(source, addToStack)\<close>, which pushes the unseen neighbors one
  after the other, leaves them reversed in front of the rest.
\<close>

definition addToStack :: "'n set \<Rightarrow> 'n list \<Rightarrow> 'n \<Rightarrow> 'n list" where
  "addToStack seen stack tgt = (if tgt \<notin> seen then tgt # stack else stack)"

text \<open>Every key a traversal can meet: the nodes and the endpoints of the edges.\<close>

definition universe :: "('n, 'e, 'a) graph \<Rightarrow> 'n set" where
  "universe g = set (nodes g) \<union> source ` set (edge_entries g) \<union> target ` set (edge_entries g)"

text \<open>The \<^verbatim>\<open>while (stack.length !== 0)\<close> loop of \<^verbatim>\<open>forEachConnectedComponent\<close> and of
  \<^verbatim>\<open>largestConnectedComponent\<close> (the two loops are the same text); it returns
  \<^verbatim>\<open>seen\<close> and \<^verbatim>\<open>component\<close> as they are when the stack is empty.\<close>

function component_while ::
  "('n, 'e, 'a) graph \<Rightarrow> 'n list \<Rightarrow> 'n set \<Rightarrow> 'n list \<Rightarrow> 'n set \<times> 'n list" where
  "component_while g [] seen component = (seen, component)"
| "component_while g (src # stack) seen component =
     (if src \<in> seen then component_while g stack seen component
      else component_while g
             (foldl (addToStack (insert src seen)) stack (forEachNeighbor g src))
             (insert src seen) (component @ [src]))"
  by pat_completeness auto

lemma set_dedup [simp]: "set (dedup xs) = set xs"
  by (simp add: dedup_def)

lemma distinct_dedup [simp]: "distinct (dedup xs)"
  by (simp add: dedup_def)

lemma set_forEachNeighbor:
  "set (forEachNeighbor g v) =
     {w. \<exists>e \<in> set (edge_entries g). (source e = v \<and> target e = w) \<or> (target e = v \<and> source e = w)}"
  by (auto simp: forEachNeighbor_def in_neighbors_def out_neighbors_def undirected_neighbors_def)

lemma forEachNeighbor_universe: "set (forEachNeighbor g v) \<subseteq> universe g"
  by (auto simp: set_forEachNeighbor universe_def)

lemma foldl_addToStack:
  "foldl (addToStack seen) stack ns = rev (filter (\<lambda>t. t \<notin> seen) ns) @ stack"
  by (induction ns arbitrary: stack) (auto simp: addToStack_def)

lemma component_while_decreases:
  assumes "src \<notin> seen"
  shows "card ((universe g \<union> set (foldl (addToStack (insert src seen)) stack (forEachNeighbor g src))) - insert src seen)
        < card ((universe g \<union> set (src # stack)) - seen)"
proof -
  have fin: "finite ((universe g \<union> set (src # stack)) - seen)" by (simp add: universe_def)
  have "(universe g \<union> set (foldl (addToStack (insert src seen)) stack (forEachNeighbor g src))) - insert src seen
        \<subset> (universe g \<union> set (src # stack)) - seen"
    using assms forEachNeighbor_universe[of g src] by (auto simp: foldl_addToStack)
  then show ?thesis using fin by (rule psubset_card_mono[rotated])
qed

lemma component_while_same:
  "src \<in> seen \<Longrightarrow> card ((universe g \<union> set stack) - seen) = card ((universe g \<union> set (src # stack)) - seen)"
  by (rule arg_cong[where f=card]) auto

termination component_while
proof (relation "(\<lambda>(g, stack, seen, component). card ((universe g \<union> set stack) - seen)) <*mlex*> measure (\<lambda>(g, stack, seen, component). length stack)", goal_cases)
  case 1
  show ?case by (simp add: wf_mlex)
next
  case (2 g src stack seen component)
  then show ?case using component_while_same[of src seen g stack]
    by (simp only: mlex_iff prod.case in_measure) simp
next
  case (3 g src stack seen component)
  then show ?case using component_while_decreases[of src seen g stack]
    by (simp only: mlex_iff prod.case in_measure) simp
qed

text \<open>The callback given to \<^verbatim>\<open>graph.forEachNode\<close> by \<^verbatim>\<open>forEachConnectedComponent\<close>,
  run over the nodes still to enumerate; the result is the sequence of arguments of
  \<^verbatim>\<open>callback\<close>. The stack is empty whenever the callback starts, so
  \<^verbatim>\<open>stack.push(node)\<close> makes it \<open>[node]\<close>.\<close>

fun forEachConnectedComponent_nodes ::
  "('n, 'e, 'a) graph \<Rightarrow> 'n list \<Rightarrow> 'n set \<Rightarrow> 'n list list" where
  "forEachConnectedComponent_nodes g [] seen = []"
| "forEachConnectedComponent_nodes g (node # rest) seen =
     (if node \<in> seen then forEachConnectedComponent_nodes g rest seen
      else (case component_while g [node] seen [] of
              (seen', component) \<Rightarrow> component # forEachConnectedComponent_nodes g rest seen'))"

definition forEachConnectedComponent :: "('n, 'e, 'a) graph \<Rightarrow> 'n list list" where
  "forEachConnectedComponent g =
     (if order g = 0 then [] else forEachConnectedComponent_nodes g (nodes g) {})"

text \<open>The loop of \<^verbatim>\<open>forEachConnectedComponentOrder\<close>, which counts instead of
  collecting.\<close>

function order_while ::
  "('n, 'e, 'a) graph \<Rightarrow> 'n list \<Rightarrow> 'n set \<Rightarrow> nat \<Rightarrow> 'n set \<times> nat" where
  "order_while g [] seen ord = (seen, ord)"
| "order_while g (src # stack) seen ord =
     (if src \<in> seen then order_while g stack seen ord
      else order_while g
             (foldl (addToStack (insert src seen)) stack (forEachNeighbor g src))
             (insert src seen) (ord + 1))"
  by pat_completeness auto

termination order_while
proof (relation "(\<lambda>(g, stack, seen, ord). card ((universe g \<union> set stack) - seen)) <*mlex*> measure (\<lambda>(g, stack, seen, ord). length stack)", goal_cases)
  case 1
  show ?case by (simp add: wf_mlex)
next
  case (2 g src stack seen ord)
  then show ?case using component_while_same[of src seen g stack]
    by (simp only: mlex_iff prod.case in_measure) simp
next
  case (3 g src stack seen ord)
  then show ?case using component_while_decreases[of src seen g stack]
    by (simp only: mlex_iff prod.case in_measure) simp
qed

fun forEachConnectedComponentOrder_nodes ::
  "('n, 'e, 'a) graph \<Rightarrow> 'n list \<Rightarrow> 'n set \<Rightarrow> nat list" where
  "forEachConnectedComponentOrder_nodes g [] seen = []"
| "forEachConnectedComponentOrder_nodes g (node # rest) seen =
     (if node \<in> seen then forEachConnectedComponentOrder_nodes g rest seen
      else (case order_while g [node] seen 0 of
              (seen', ord) \<Rightarrow> ord # forEachConnectedComponentOrder_nodes g rest seen'))"

definition forEachConnectedComponentOrder :: "('n, 'e, 'a) graph \<Rightarrow> nat list" where
  "forEachConnectedComponentOrder g =
     (if order g = 0 then [] else forEachConnectedComponentOrder_nodes g (nodes g) {})"

text \<open>\<^verbatim>\<open>connectedComponents\<close> pushes every component it is called back with.\<close>

definition connectedComponents :: "('n, 'e, 'a) graph \<Rightarrow> 'n list list" where
  "connectedComponents g =
     foldl (\<lambda>components component. components @ [component]) [] (forEachConnectedComponent g)"

text \<open>The callback given to \<^verbatim>\<open>graph.someNode\<close> by \<^verbatim>\<open>largestConnectedComponent\<close>:
  \<^verbatim>\<open>someNode\<close> stops at the first node for which the callback returns true.
  \<^verbatim>\<open>seen.size\<close> is the cardinality of the set; the subtraction is the one of
  JavaScript numbers, so it is done over the integers.\<close>

fun largestConnectedComponent_nodes ::
  "('n, 'e, 'a) graph \<Rightarrow> nat \<Rightarrow> 'n list \<Rightarrow> 'n set \<Rightarrow> 'n list \<Rightarrow> 'n list" where
  "largestConnectedComponent_nodes g ord [] seen largestComponent = largestComponent"
| "largestConnectedComponent_nodes g ord (node # rest) seen largestComponent =
     (if node \<in> seen then largestConnectedComponent_nodes g ord rest seen largestComponent
      else (case component_while g [node] seen [] of
              (seen', component) \<Rightarrow>
                (let largestComponent' =
                       (if length component > length largestComponent then component
                        else largestComponent);
                     remaining = int ord - int (card seen')
                 in if int (length largestComponent') > remaining then largestComponent'
                    else largestConnectedComponent_nodes g ord rest seen' largestComponent')))"

definition largestConnectedComponent :: "('n, 'e, 'a) graph \<Rightarrow> 'n list" where
  "largestConnectedComponent g =
     (if order g = 0 then []
      else largestConnectedComponent_nodes g (order g) (nodes g) {} [])"

section \<open>The subgraph of the largest component and the crop\<close>

text \<open>\<^verbatim>\<open>component.forEach(function (key) { copyNode(S, key, graph.getNodeAttributes(key)); })\<close>
  The graph \<^verbatim>\<open>S\<close> under construction is the last argument.\<close>

fun largestConnectedComponentSubgraph_nodes ::
  "('n, 'e, 'a) graph \<Rightarrow> 'n list \<Rightarrow> ('n, 'e, 'a) graph \<Rightarrow> error + ('n, 'e, 'a) graph" where
  "largestConnectedComponentSubgraph_nodes g [] S' = Inr S'"
| "largestConnectedComponentSubgraph_nodes g (k # rest) S' =
     (case getNodeAttributes g k of
        None \<Rightarrow> Inl NotFound
      | Some attrs \<Rightarrow> largestConnectedComponentSubgraph_nodes g rest (copyNode S' k attrs))"

text \<open>The callback given to \<^verbatim>\<open>graph.forEachEdge\<close>, run over the edges of the graph.\<close>

fun largestConnectedComponentSubgraph_edges ::
  "('n, 'e, 'a) edge list \<Rightarrow> ('n, 'e, 'a) graph \<Rightarrow> ('n, 'e, 'a) graph" where
  "largestConnectedComponentSubgraph_edges [] S' = S'"
| "largestConnectedComponentSubgraph_edges (e # rest) S' =
     largestConnectedComponentSubgraph_edges rest
       (if hasNode S' (source e)
        then copyEdge S' (undirected e) (key e) (source e) (target e) (attr e) else S')"

definition largestConnectedComponentSubgraph ::
  "('n, 'e, 'a) graph \<Rightarrow> error + ('n, 'e, 'a) graph" where
  "largestConnectedComponentSubgraph g =
     (case largestConnectedComponentSubgraph_nodes g (largestConnectedComponent g) (nullCopy g) of
        Inl err \<Rightarrow> Inl err
      | Inr S' \<Rightarrow> Inr (largestConnectedComponentSubgraph_edges (edge_entries g) S'))"

text \<open>The callback given to \<^verbatim>\<open>graph.forEachNode\<close> by \<^verbatim>\<open>cropToLargestConnectedComponent\<close>.
  It drops the key it is called with and no other, so the enumeration goes through
  the nodes the graph had at the start.\<close>

fun cropToLargestConnectedComponent_nodes ::
  "'n set \<Rightarrow> 'n list \<Rightarrow> ('n, 'e, 'a) graph \<Rightarrow> ('n, 'e, 'a) graph" where
  "cropToLargestConnectedComponent_nodes component [] g = g"
| "cropToLargestConnectedComponent_nodes component (k # rest) g =
     cropToLargestConnectedComponent_nodes component rest
       (if k \<notin> component then dropNode g k else g)"

text \<open>The function returns nothing; the result is the graph as it has been mutated.\<close>

definition cropToLargestConnectedComponent :: "('n, 'e, 'a) graph \<Rightarrow> ('n, 'e, 'a) graph" where
  "cropToLargestConnectedComponent g =
     cropToLargestConnectedComponent_nodes (set (largestConnectedComponent g)) (nodes g) g"

section \<open>Strong components\<close>

text \<open>The variables shared by the calls of \<^verbatim>\<open>DFS\<close>. The arrays \<^verbatim>\<open>P\<close> and \<^verbatim>\<open>S\<close> are
  used as stacks and held with their top (the last array element) at the head.\<close>

record 'n scc_state =
  count :: nat
  P :: "'n list"
  S :: "'n list"
  preorder :: "'n \<rightharpoonup> nat"
  assigned :: "'n set"
  components :: "'n list list"

text \<open>\<^verbatim>\<open>while (preorder.get(P[P.length - 1]) > neighborOrder) P.pop();\<close> On an empty
  \<^verbatim>\<open>P\<close>, and on a top that has no preorder, the comparison is one of \<^verbatim>\<open>undefined\<close> with a
  number, which is false.\<close>

fun pop_while :: "('n \<rightharpoonup> nat) \<Rightarrow> nat \<Rightarrow> 'n list \<Rightarrow> 'n list" where
  "pop_while pre neighborOrder [] = []"
| "pop_while pre neighborOrder (p # rest) =
     (case pre p of
        None \<Rightarrow> p # rest
      | Some k \<Rightarrow> if k > neighborOrder then pop_while pre neighborOrder rest else p # rest)"

text \<open>\<^verbatim>\<open>do { pop = S.pop(); component.push(pop); assigned.add(pop); } while (pop !== node);\<close>
  Were \<^verbatim>\<open>S\<close> to run empty before \<^verbatim>\<open>node\<close> is met, every further \<^verbatim>\<open>pop\<close> would be
  \<^verbatim>\<open>undefined\<close> and the loop would not end: that is the value \<open>None\<close>.\<close>

fun pop_component ::
  "'n \<Rightarrow> 'n list \<Rightarrow> 'n list \<Rightarrow> 'n set \<Rightarrow> ('n list \<times> 'n list \<times> 'n set) option" where
  "pop_component node [] component asg = None"
| "pop_component node (pop # rest) component asg =
     (if pop \<noteq> node then pop_component node rest (component @ [pop]) (insert pop asg)
      else Some (rest, component @ [pop], insert pop asg))"

text \<open>The recursive \<^verbatim>\<open>DFS\<close> and its \<^verbatim>\<open>for\<close> loop over the neighbors. \<^verbatim>\<open>DFS\<close> numbers the
  node (\<^verbatim>\<open>preorder.set(node, count++)\<close>), pushes it on \<^verbatim>\<open>P\<close> and on \<^verbatim>\<open>S\<close>, runs the loop,
  and when the top of \<^verbatim>\<open>P\<close> has the number of the node it pops a component off \<^verbatim>\<open>S\<close> and
  the node off \<^verbatim>\<open>P\<close>. The loop pops \<^verbatim>\<open>P\<close> for a neighbor that is numbered and not
  assigned, and calls \<^verbatim>\<open>DFS\<close> for a neighbor that is not numbered. The first argument is
  the number of nested calls the recursion may make: \<open>None\<close> is a call that did not
  return within it.\<close>

fun DFS :: "nat \<Rightarrow> ('n, 'e, 'a) graph \<Rightarrow> 'n \<Rightarrow> 'n scc_state \<Rightarrow> 'n scc_state option"
and DFS_neighbors ::
  "nat \<Rightarrow> ('n, 'e, 'a) graph \<Rightarrow> 'n list \<Rightarrow> 'n scc_state \<Rightarrow> 'n scc_state option" where
  "DFS 0 g node st = None"
| "DFS (Suc depth) g node st =
     (case DFS_neighbors depth g (outboundNeighbors g node)
             (st\<lparr>preorder := (preorder st)(node \<mapsto> count st), count := count st + 1,
                 P := node # P st, S := node # S st\<rparr>) of
        None \<Rightarrow> None
      | Some st' \<Rightarrow>
          (if (case P st' of [] \<Rightarrow> False | p # _ \<Rightarrow> preorder st' p = preorder st' node)
           then (case pop_component node (S st') [] (assigned st') of
                   None \<Rightarrow> None
                 | Some (S', component, assigned') \<Rightarrow>
                     Some (st'\<lparr>S := S', assigned := assigned',
                              components := components st' @ [component], P := tl (P st')\<rparr>))
           else Some st'))"
| "DFS_neighbors depth g [] st = Some st"
| "DFS_neighbors depth g (neighbor # rest) st =
     (case preorder st neighbor of
        Some neighborOrder \<Rightarrow>
          DFS_neighbors depth g rest
            (if neighbor \<notin> assigned st
             then st\<lparr>P := pop_while (preorder st) neighborOrder (P st)\<rparr> else st)
      | None \<Rightarrow>
          (case DFS depth g neighbor st of
             None \<Rightarrow> None
           | Some st' \<Rightarrow> DFS_neighbors depth g rest st'))"

text \<open>\<^verbatim>\<open>for (i = 0, l = nodes.length; i < l; i++) { vertex = nodes[i]; if (!assigned.has(vertex)) DFS(vertex); }\<close>\<close>

fun stronglyConnectedComponents_nodes ::
  "nat \<Rightarrow> ('n, 'e, 'a) graph \<Rightarrow> 'n list \<Rightarrow> 'n scc_state \<Rightarrow> 'n scc_state option" where
  "stronglyConnectedComponents_nodes depth g [] st = Some st"
| "stronglyConnectedComponents_nodes depth g (vertex # rest) st =
     (if vertex \<notin> assigned st
      then (case DFS depth g vertex st of
              None \<Rightarrow> None
            | Some st' \<Rightarrow> stronglyConnectedComponents_nodes depth g rest st')
      else stronglyConnectedComponents_nodes depth g rest st)"

text \<open>\<^verbatim>\<open>count = 1, P = [], S = [], preorder = new Map(), assigned = new Set()\<close>, and
  no component yet.\<close>

definition initial_state :: "'n scc_state" where
  "initial_state = \<lparr>count = 1, P = [], S = [], preorder = Map.empty, assigned = {}, components = []\<rparr>"

text \<open>\<^verbatim>\<open>stronglyConnectedComponents\<close>, with its tests in the order of the source: the
  node count, the type, the edge count. The result is \<open>None\<close> when the recursion did not
  return within the given depth, \<open>Some (Inl e)\<close> when the function throws and
  \<open>Some (Inr components)\<close> when it returns.\<close>

definition stronglyConnectedComponents ::
  "nat \<Rightarrow> ('n, 'e, 'a) graph \<Rightarrow> (error + 'n list list) option" where
  "stronglyConnectedComponents depth g =
     (if order g = 0 then Some (Inr [])
      else if type g = Undirected then Some (Inl WrongDirectionality)
      else if size_g g = 0 then Some (Inr (map (\<lambda>node. [node]) (nodes g)))
      else (case stronglyConnectedComponents_nodes depth g (nodes g) initial_state of
              None \<Rightarrow> None
            | Some st \<Rightarrow> Some (Inr (components st))))"

section \<open>The weak traversals on the mutable graph\<close>

text \<open>
  The graph is a mutable object, and the functions above are its traversals read as
  functions of its value. To say what a traversal does to the graph, the same code is
  read here with the graph as a state: a run takes the graph and returns its result
  together with the graph as it is afterwards. \<^verbatim>\<open>graph.order\<close> is a property that is
  read; \<^verbatim>\<open>forEachNode\<close> and \<^verbatim>\<open>someNode\<close> enumerate the nodes the graph has when they are
  called, and the graph goes from one call of their callback to the next. The caller's
  \<^verbatim>\<open>callback\<close> is handed a component or a count and nothing of the graph.
\<close>

text \<open>Modelled from the spec: \<^verbatim>\<open>graph.forEachNeighbor\<close> is an enumeration of the graph
  access interface, which reads the graph and leaves it as it is.\<close>

definition forEachNeighbor_run ::
  "('n, 'e, 'a) graph \<Rightarrow> 'n \<Rightarrow> 'n list \<times> ('n, 'e, 'a) graph" where
  "forEachNeighbor_run g v = (forEachNeighbor g v, g)"

function component_while_run ::
  "('n, 'e, 'a) graph \<Rightarrow> 'n list \<Rightarrow> 'n set \<Rightarrow> 'n list \<Rightarrow>
     ('n set \<times> 'n list) \<times> ('n, 'e, 'a) graph" where
  "component_while_run g [] seen component = ((seen, component), g)"
| "component_while_run g (src # stack) seen component =
     (if src \<in> seen then component_while_run g stack seen component
      else (case forEachNeighbor_run g src of
              (neighbors, g') \<Rightarrow>
                component_while_run g' (foldl (addToStack (insert src seen)) stack neighbors)
                  (insert src seen) (component @ [src])))"
  by pat_completeness auto

termination component_while_run
proof (relation "(\<lambda>(g, stack, seen, component). card ((universe g \<union> set stack) - seen)) <*mlex*> measure (\<lambda>(g, stack, seen, component). length stack)", goal_cases)
  case 1
  show ?case by (simp add: wf_mlex)
next
  case (2 g src stack seen component)
  then show ?case using component_while_same[of src seen g stack]
    by (simp only: mlex_iff prod.case in_measure) simp
next
  case (3 g src stack seen component neighbors g')
  then have "neighbors = forEachNeighbor g src" "g' = g"
    by (simp_all add: forEachNeighbor_run_def)
  with 3 show ?case using component_while_decreases[of src seen g stack]
    by (simp only: mlex_iff prod.case in_measure) simp
qed

function order_while_run ::
  "('n, 'e, 'a) graph \<Rightarrow> 'n list \<Rightarrow> 'n set \<Rightarrow> nat \<Rightarrow> ('n set \<times> nat) \<times> ('n, 'e, 'a) graph" where
  "order_while_run g [] seen ord = ((seen, ord), g)"
| "order_while_run g (src # stack) seen ord =
     (if src \<in> seen then order_while_run g stack seen ord
      else (case forEachNeighbor_run g src of
              (neighbors, g') \<Rightarrow>
                order_while_run g' (foldl (addToStack (insert src seen)) stack neighbors)
                  (insert src seen) (ord + 1)))"
  by pat_completeness auto

termination order_while_run
proof (relation "(\<lambda>(g, stack, seen, ord). card ((universe g \<union> set stack) - seen)) <*mlex*> measure (\<lambda>(g, stack, seen, ord). length stack)", goal_cases)
  case 1
  show ?case by (simp add: wf_mlex)
next
  case (2 g src stack seen ord)
  then show ?case using component_while_same[of src seen g stack]
    by (simp only: mlex_iff prod.case in_measure) simp
next
  case (3 g src stack seen ord neighbors g')
  then have "neighbors = forEachNeighbor g src" "g' = g"
    by (simp_all add: forEachNeighbor_run_def)
  with 3 show ?case using component_while_decreases[of src seen g stack]
    by (simp only: mlex_iff prod.case in_measure) simp
qed

fun forEachConnectedComponent_nodes_run ::
  "('n, 'e, 'a) graph \<Rightarrow> 'n list \<Rightarrow> 'n set \<Rightarrow> 'n list list \<times> ('n, 'e, 'a) graph" where
  "forEachConnectedComponent_nodes_run g [] seen = ([], g)"
| "forEachConnectedComponent_nodes_run g (node # rest) seen =
     (if node \<in> seen then forEachConnectedComponent_nodes_run g rest seen
      else (case component_while_run g [node] seen [] of
              ((seen', component), g') \<Rightarrow>
                (case forEachConnectedComponent_nodes_run g' rest seen' of
                   (emitted, g'') \<Rightarrow> (component # emitted, g''))))"

definition forEachConnectedComponent_run ::
  "('n, 'e, 'a) graph \<Rightarrow> 'n list list \<times> ('n, 'e, 'a) graph" where
  "forEachConnectedComponent_run g =
     (if order g = 0 then ([], g) else forEachConnectedComponent_nodes_run g (nodes g) {})"

fun forEachConnectedComponentOrder_nodes_run ::
  "('n, 'e, 'a) graph \<Rightarrow> 'n list \<Rightarrow> 'n set \<Rightarrow> nat list \<times> ('n, 'e, 'a) graph" where
  "forEachConnectedComponentOrder_nodes_run g [] seen = ([], g)"
| "forEachConnectedComponentOrder_nodes_run g (node # rest) seen =
     (if node \<in> seen then forEachConnectedComponentOrder_nodes_run g rest seen
      else (case order_while_run g [node] seen 0 of
              ((seen', ord), g') \<Rightarrow>
                (case forEachConnectedComponentOrder_nodes_run g' rest seen' of
                   (emitted, g'') \<Rightarrow> (ord # emitted, g''))))"

definition forEachConnectedComponentOrder_run ::
  "('n, 'e, 'a) graph \<Rightarrow> nat list \<times> ('n, 'e, 'a) graph" where
  "forEachConnectedComponentOrder_run g =
     (if order g = 0 then ([], g) else forEachConnectedComponentOrder_nodes_run g (nodes g) {})"

definition connectedComponents_run ::
  "('n, 'e, 'a) graph \<Rightarrow> 'n list list \<times> ('n, 'e, 'a) graph" where
  "connectedComponents_run g =
     (case forEachConnectedComponent_run g of
        (emitted, g') \<Rightarrow>
          (foldl (\<lambda>components component. components @ [component]) [] emitted, g'))"

fun largestConnectedComponent_nodes_run ::
  "('n, 'e, 'a) graph \<Rightarrow> nat \<Rightarrow> 'n list \<Rightarrow> 'n set \<Rightarrow> 'n list \<Rightarrow> 'n list \<times> ('n, 'e, 'a) graph" where
  "largestConnectedComponent_nodes_run g ord [] seen largestComponent = (largestComponent, g)"
| "largestConnectedComponent_nodes_run g ord (node # rest) seen largestComponent =
     (if node \<in> seen then largestConnectedComponent_nodes_run g ord rest seen largestComponent
      else (case component_while_run g [node] seen [] of
              ((seen', component), g') \<Rightarrow>
                (let largestComponent' =
                       (if length component > length largestComponent then component
                        else largestComponent);
                     remaining = int ord - int (card seen')
                 in if int (length largestComponent') > remaining then (largestComponent', g')
                    else largestConnectedComponent_nodes_run g' ord rest seen' largestComponent')))"

definition largestConnectedComponent_run ::
  "('n, 'e, 'a) graph \<Rightarrow> 'n list \<times> ('n, 'e, 'a) graph" where
  "largestConnectedComponent_run g =
     (if order g = 0 then ([], g)
      else largestConnectedComponent_nodes_run g (order g) (nodes g) {} [])"

section \<open>Well-formed graphs, reference definitions and invariants\<close>

text \<open>A well-formed graph: no key is the key of two nodes, and the endpoints of every
  edge are nodes.\<close>

definition well_formed :: "('n, 'e, 'a) graph \<Rightarrow> bool" where
  "well_formed g \<longleftrightarrow>
     distinct (nodes g) \<and>
     (\<forall>e \<in> set (edge_entries g). source e \<in> set (nodes g) \<and> target e \<in> set (nodes g))"

text \<open>A set of keys that holds the neighbors of each of its members.\<close>

definition closed :: "('n, 'e, 'a) graph \<Rightarrow> 'n set \<Rightarrow> bool" where
  "closed g A \<longleftrightarrow> (\<forall>v \<in> A. set (forEachNeighbor g v) \<subseteq> A)"

text \<open>The components are a partition of the nodes: every node is in the component at
  exactly one position of the list, and every component is a non-empty list of nodes
  without repetition.\<close>

definition partition_of :: "'n list list \<Rightarrow> 'n list \<Rightarrow> bool" where
  "partition_of cs ns \<longleftrightarrow>
     (\<forall>v \<in> set ns. \<exists>!i. i < length cs \<and> v \<in> set (cs ! i)) \<and>
     (\<forall>c \<in> set cs. c \<noteq> [] \<and> distinct c \<and> set c \<subseteq> set ns)"

text \<open>The update of \<^verbatim>\<open>largestComponent\<close> after a component is complete.\<close>

definition keep_larger :: "'n list \<Rightarrow> 'n list \<Rightarrow> 'n list" where
  "keep_larger largestComponent component =
     (if length component > length largestComponent then component else largestComponent)"



text \<open>Directed reachability along the outbound neighbors, to state what the strong
  components of the two example graphs group.\<close>

definition reaches :: "('n, 'e, 'a) graph \<Rightarrow> 'n \<Rightarrow> 'n \<Rightarrow> bool" where
  "reaches g u v \<longleftrightarrow> (u, v) \<in> {(a, b). b \<in> set (outboundNeighbors g a)}\<^sup>*"

definition mutually_reachable :: "('n, 'e, 'a) graph \<Rightarrow> 'n \<Rightarrow> 'n \<Rightarrow> bool" where
  "mutually_reachable g u v \<longleftrightarrow> reaches g u v \<and> reaches g v u"

text \<open>Two keys are in one and the same component of a list of components.\<close>

definition same_component :: "'n list list \<Rightarrow> 'n \<Rightarrow> 'n \<Rightarrow> bool" where
  "same_component cs u v \<longleftrightarrow> (\<exists>c \<in> set cs. u \<in> set c \<and> v \<in> set c)"

text \<open>The invariant of the strong walker: \<open>S\<close> holds the numbered nodes that are not
  assigned, once each; the components hold the assigned nodes, once each, and none is
  empty; only nodes are numbered, with numbers below \<open>count\<close>.\<close>

definition scc_inv :: "('n, 'e, 'a) graph \<Rightarrow> 'n scc_state \<Rightarrow> bool" where
  "scc_inv g st \<longleftrightarrow>
     set (S st) = dom (preorder st) - assigned st \<and> distinct (S st) \<and>
     assigned st \<subseteq> dom (preorder st) \<and>
     set (concat (components st)) = assigned st \<and> distinct (concat (components st)) \<and>
     [] \<notin> set (components st) \<and>
     dom (preorder st) \<subseteq> set (nodes g) \<and>
     (\<forall>v k. preorder st v = Some k \<longrightarrow> k < count st)"

text \<open>The root \<open>r\<close> of the running search is the bottom of \<open>P\<close>, and no node still on
  \<open>S\<close> was numbered before it.\<close>

definition rooted :: "'n \<Rightarrow> nat \<Rightarrow> 'n scc_state \<Rightarrow> bool" where
  "rooted r c st \<longleftrightarrow>
     P st \<noteq> [] \<and> last (P st) = r \<and> preorder st r = Some c \<and>
     (\<forall>v k. preorder st v = Some k \<and> v \<notin> assigned st \<longrightarrow> c \<le> k)"

text \<open>What a call of \<^verbatim>\<open>DFS\<close> or a run of its loop does to the state: numbers and
  assignments are only added, the new numbers are not below the old \<open>count\<close>, \<open>S\<close> is
  left with what it held at the bottom, \<open>P\<close> is only cut down, and the root stays.\<close>

definition extends :: "'n scc_state \<Rightarrow> 'n scc_state \<Rightarrow> bool" where
  "extends st st' \<longleftrightarrow>
     preorder st \<subseteq>\<^sub>m preorder st' \<and> assigned st \<subseteq> assigned st' \<and> count st \<le> count st' \<and>
     (\<forall>v k. preorder st v = None \<and> preorder st' v = Some k \<longrightarrow> count st \<le> k) \<and>
     suffix (S st) (S st') \<and> suffix (P st') (P st) \<and>
     (\<forall>r c. rooted r c st \<longrightarrow> rooted r c st')"

text \<open>The number of nodes without a number: a bound of the depth of the recursion.\<close>

definition unvisited :: "('n, 'e, 'a) graph \<Rightarrow> 'n scc_state \<Rightarrow> nat" where
  "unvisited g st = card (set (nodes g) - dom (preorder st))"

text \<open>The state once \<^verbatim>\<open>DFS\<close> has numbered and pushed its node.\<close>

definition pushed :: "'n \<Rightarrow> 'n scc_state \<Rightarrow> 'n scc_state" where
  "pushed node st =
     st\<lparr>preorder := (preorder st)(node \<mapsto> count st), count := count st + 1,
        P := node # P st, S := node # S st\<rparr>"

text \<open>The end of \<^verbatim>\<open>DFS\<close>, after the loop over the neighbors.\<close>

definition finish :: "'n \<Rightarrow> 'n scc_state \<Rightarrow> 'n scc_state option" where
  "finish node st' =
     (if (case P st' of [] \<Rightarrow> False | p # _ \<Rightarrow> preorder st' p = preorder st' node)
      then (case pop_component node (S st') [] (assigned st') of
              None \<Rightarrow> None
            | Some (S', component, assigned') \<Rightarrow>
                Some (st'\<lparr>S := S', assigned := assigned',
                         components := components st' @ [component], P := tl (P st')\<rparr>))
      else Some st')"

text \<open>The number of a node, zero for a node that has none.\<close>

definition number :: "'n scc_state \<Rightarrow> 'n \<Rightarrow> nat" where
  "number st x = (case preorder st x of None \<Rightarrow> 0 | Some k \<Rightarrow> k)"

text \<open>An edge from \<open>x\<close> to \<open>w\<close> that the walker is done with: \<open>w\<close> is numbered, and it is
  assigned or no node of \<open>P\<close> lies between the two, above \<open>w\<close> and not above \<open>x\<close>.\<close>

definition edge_ok :: "'n scc_state \<Rightarrow> 'n \<Rightarrow> 'n \<Rightarrow> bool" where
  "edge_ok st x w \<longleftrightarrow>
     w \<in> dom (preorder st) \<and>
     (w \<in> assigned st \<or> (\<forall>p \<in> set (P st). number st p \<le> number st x \<longrightarrow> number st p \<le> number st w))"

text \<open>The invariant of the strong walker about reachability, for the set \<open>G\<close> of the nodes
  whose calls of \<^verbatim>\<open>DFS\<close> are running: \<open>S\<close> and \<open>P\<close> are in the order of the numbers, \<open>P\<close>
  is part of \<open>S\<close>; the assigned nodes are closed under the edges; the edges of the nodes
  on \<open>S\<close> whose calls have returned are done with; a node of \<open>P\<close> reaches the nodes of
  \<open>S\<close> above it, and a node of \<open>S\<close> reaches a node of \<open>P\<close> that is not above it; the nodes
  of a component reach each other, and a component holds every node that is mutually
  reachable with one of its nodes.\<close>

definition conn_inv :: "('n, 'e, 'a) graph \<Rightarrow> 'n set \<Rightarrow> 'n scc_state \<Rightarrow> bool" where
  "conn_inv g G st \<longleftrightarrow>
     sorted_wrt (\<lambda>a b. number st b < number st a) (S st) \<and>
     sorted_wrt (\<lambda>a b. number st b < number st a) (P st) \<and>
     set (P st) \<subseteq> set (S st) \<and>
     G \<subseteq> set (S st) \<and>
     (\<forall>x \<in> assigned st. set (outboundNeighbors g x) \<subseteq> assigned st) \<and>
     (\<forall>x \<in> set (S st) - G. \<forall>w \<in> set (outboundNeighbors g x). edge_ok st x w) \<and>
     (\<forall>s \<in> set (S st). \<forall>p \<in> set (P st). number st p \<le> number st s \<longrightarrow> reaches g p s) \<and>
     (\<forall>s \<in> set (S st). \<exists>p \<in> set (P st). number st p \<le> number st s \<and> reaches g s p) \<and>
     (\<forall>c \<in> set (components st). \<forall>u \<in> set c.
        (\<forall>v \<in> set c. reaches g u v) \<and> (\<forall>v. mutually_reachable g u v \<longrightarrow> v \<in> set c))"

subsection \<open>Example graphs\<close>

text \<open>The null graph, of any type.\<close>

definition empty_graph :: "(nat, nat, unit) graph" where
  "empty_graph = \<lparr>type = Mixed, node_entries = [], edge_entries = []\<rparr>"

text \<open>The graph of the specification's scenario: nodes 1 to 5, with their names as
  attributes, and undirected edges 1\<midarrow>2, 2\<midarrow>3 and 4\<midarrow>5, with their weights.\<close>

definition scenario_undirected :: "(nat, nat, string) graph" where
  "scenario_undirected =
     \<lparr>type = Undirected,
      node_entries = [(1, ''one''), (2, ''two''), (3, ''three''), (4, ''four''), (5, ''five'')],
      edge_entries =
        [\<lparr>key = 0, attr = ''w12'', source = 1, target = 2, undirected = True\<rparr>,
         \<lparr>key = 1, attr = ''w23'', source = 2, target = 3, undirected = True\<rparr>,
         \<lparr>key = 2, attr = ''w45'', source = 4, target = 5, undirected = True\<rparr>]\<rparr>"


text \<open>Three nodes and no edge, in a directed graph.\<close>

definition isolated_nodes :: "(nat, nat, unit) graph" where
  "isolated_nodes =
     \<lparr>type = Directed, node_entries = [(1, ()), (2, ()), (3, ())], edge_entries = []\<rparr>"

text \<open>The graph of the specification's scenario: directed edges 1\<rightarrow>2, 2\<rightarrow>1 and 2\<rightarrow>3.\<close>

definition scenario_directed :: "(nat, nat, unit) graph" where
  "scenario_directed =
     \<lparr>type = Directed, node_entries = [(1, ()), (2, ()), (3, ())],
      edge_entries =
        [\<lparr>key = 0, attr = (), source = 1, target = 2, undirected = False\<rparr>,
         \<lparr>key = 1, attr = (), source = 2, target = 1, undirected = False\<rparr>,
         \<lparr>key = 2, attr = (), source = 2, target = 3, undirected = False\<rparr>]\<rparr>"

text \<open>An undirected graph without nodes, and one with a single node.\<close>

definition null_undirected :: "(nat, nat, unit) graph" where
  "null_undirected = \<lparr>type = Undirected, node_entries = [], edge_entries = []\<rparr>"

definition single_undirected :: "(nat, nat, unit) graph" where
  "single_undirected = \<lparr>type = Undirected, node_entries = [(1, ())], edge_entries = []\<rparr>"

text \<open>The directed cycle A\<rightarrow>B\<rightarrow>C\<rightarrow>A and the directed path A\<rightarrow>B\<rightarrow>C.\<close>

definition directed_cycle :: "(string, nat, unit) graph" where
  "directed_cycle =
     \<lparr>type = Directed, node_entries = [(''A'', ()), (''B'', ()), (''C'', ())],
      edge_entries =
        [\<lparr>key = 0, attr = (), source = ''A'', target = ''B'', undirected = False\<rparr>,
         \<lparr>key = 1, attr = (), source = ''B'', target = ''C'', undirected = False\<rparr>,
         \<lparr>key = 2, attr = (), source = ''C'', target = ''A'', undirected = False\<rparr>]\<rparr>"

definition directed_path :: "(string, nat, unit) graph" where
  "directed_path =
     \<lparr>type = Directed, node_entries = [(''A'', ()), (''B'', ()), (''C'', ())],
      edge_entries =
        [\<lparr>key = 0, attr = (), source = ''A'', target = ''B'', undirected = False\<rparr>,
         \<lparr>key = 1, attr = (), source = ''B'', target = ''C'', undirected = False\<rparr>]\<rparr>"

text \<open>A tail into a cycle: directed edges 1\<rightarrow>2, 2\<rightarrow>3 and 3\<rightarrow>2.\<close>

definition tail_into_cycle :: "(nat, nat, unit) graph" where
  "tail_into_cycle =
     \<lparr>type = Directed, node_entries = [(1, ()), (2, ()), (3, ())],
      edge_entries =
        [\<lparr>key = 0, attr = (), source = 1, target = 2, undirected = False\<rparr>,
         \<lparr>key = 1, attr = (), source = 2, target = 3, undirected = False\<rparr>,
         \<lparr>key = 2, attr = (), source = 3, target = 2, undirected = False\<rparr>]\<rparr>"

text \<open>The same nodes and edges, with every edge read as undirected.\<close>

definition as_undirected :: "('n, 'e, 'a) graph \<Rightarrow> ('n, 'e, 'a) graph" where
  "as_undirected g =
     g\<lparr>type := Undirected, edge_entries := map (\<lambda>e. e\<lparr>undirected := True\<rparr>) (edge_entries g)\<rparr>"

text \<open>The position of a key along the directed path.\<close>

definition path_rank :: "string \<Rightarrow> nat" where
  "path_rank k = (if k = ''A'' then 0 else if k = ''B'' then 1 else if k = ''C'' then 2 else 3)"

section \<open>Properties of the weak walker\<close>

lemma distinct_concat_disjoint:
  assumes "distinct (concat cs)" "i < j" "j < length cs"
  shows "set (cs ! i) \<inter> set (cs ! j) = {}"
proof -
  have cs: "cs = take j cs @ cs ! j # drop (Suc j) cs"
    using assms(3) by (rule id_take_nth_drop)
  have "cs ! i = take j cs ! i" using assms(2) by simp
  moreover have "i < length (take j cs)" using assms(2,3) by simp
  ultimately have "cs ! i \<in> set (take j cs)" by (metis nth_mem)
  then have sub: "set (cs ! i) \<subseteq> set (concat (take j cs))" by auto
  have "distinct (concat (take j cs @ cs ! j # drop (Suc j) cs))"
    using assms(1) cs by simp
  then have "set (concat (take j cs)) \<inter> set (cs ! j) = {}" by auto
  with sub show ?thesis by blast
qed

lemma partition_ofI:
  assumes "distinct (concat cs)" "set (concat cs) = set ns" "[] \<notin> set cs"
  shows "partition_of cs ns"
  unfolding partition_of_def
proof (intro conjI ballI)
  fix v assume "v \<in> set ns"
  with assms(2) obtain c where "c \<in> set cs" "v \<in> set c" by auto
  then obtain i where i: "i < length cs" "v \<in> set (cs ! i)" by (auto simp: in_set_conv_nth)
  have "j = i" if "j < length cs" "v \<in> set (cs ! j)" for j
  proof (rule ccontr)
    assume "j \<noteq> i"
    then consider "i < j" | "j < i" by linarith
    then show False
      using distinct_concat_disjoint[OF assms(1), of i j] distinct_concat_disjoint[OF assms(1), of j i]
        i that by cases auto
  qed
  with i show "\<exists>!i. i < length cs \<and> v \<in> set (cs ! i)" by blast
next
  fix c assume c: "c \<in> set cs"
  with assms(3) show "c \<noteq> []" by auto
  from c assms(1) show "distinct c" by (auto simp: distinct_concat_iff)
  from c assms(2) show "set c \<subseteq> set ns" by auto
qed

lemma forEachNeighbor_sym: "w \<in> set (forEachNeighbor g v) \<longleftrightarrow> v \<in> set (forEachNeighbor g w)"
  by (auto simp: set_forEachNeighbor)

lemma well_formed_closed: "well_formed g \<Longrightarrow> closed g (set (nodes g))"
  by (auto simp: well_formed_def closed_def set_forEachNeighbor)

lemma component_while_new:
  "\<exists>new. component_while g stack seen component = (seen \<union> set new, component @ new) \<and>
     distinct new \<and> set new \<inter> seen = {}"
proof (induction g stack seen component rule: component_while.induct)
  case (1 g seen component)
  show ?case by (rule exI[of _ "[]"]) simp
next
  case (2 g src stack seen component)
  show ?case
  proof (cases "src \<in> seen")
    case True
    with 2 show ?thesis by simp
  next
    case False
    with 2 obtain new where new:
      "component_while g (foldl (addToStack (insert src seen)) stack (forEachNeighbor g src))
         (insert src seen) (component @ [src]) = (insert src seen \<union> set new, (component @ [src]) @ new)"
      "distinct new" "set new \<inter> insert src seen = {}"
      by blast
    show ?thesis
      by (rule exI[of _ "src # new"]) (use False new in auto)
  qed
qed

lemma component_while_stack_seen:
  "set stack \<subseteq> fst (component_while g stack seen component)"
proof (induction g stack seen component rule: component_while.induct)
  case (1 g seen component)
  show ?case by simp
next
  case (2 g src stack seen component)
  have mono: "seen \<subseteq> fst (component_while g st seen c)" for st c
    using component_while_new[of g st seen c] by auto
  show ?case
  proof (cases "src \<in> seen")
    case True
    with 2 mono[of stack component] show ?thesis by auto
  next
    case False
    have "insert src seen \<subseteq> fst (component_while g (foldl (addToStack (insert src seen)) stack (forEachNeighbor g src))
         (insert src seen) (component @ [src]))"
      using component_while_new[of g "foldl (addToStack (insert src seen)) stack (forEachNeighbor g src)" "insert src seen" "component @ [src]"]
      by auto
    with 2 False show ?thesis by (auto simp: foldl_addToStack)
  qed
qed

lemma component_while_closed:
  "\<forall>v \<in> seen. set (forEachNeighbor g v) \<subseteq> seen \<union> set stack \<Longrightarrow>
   closed g (fst (component_while g stack seen component))"
proof (induction g stack seen component rule: component_while.induct)
  case (1 g seen component)
  then show ?case by (simp add: closed_def)
next
  case (2 g src stack seen component)
  show ?case
  proof (cases "src \<in> seen")
    case True
    with 2 show ?thesis by auto
  next
    case False
    have "\<forall>v\<in>insert src seen. set (forEachNeighbor g v)
            \<subseteq> insert src seen \<union> set (foldl (addToStack (insert src seen)) stack (forEachNeighbor g src))"
      using "2.prems" by (auto simp: foldl_addToStack)
    with 2 False show ?thesis by simp
  qed
qed

lemma component_while_within:
  "closed g A \<Longrightarrow> set stack \<subseteq> A \<Longrightarrow> seen \<subseteq> A \<Longrightarrow>
   fst (component_while g stack seen component) \<subseteq> A"
proof (induction g stack seen component rule: component_while.induct)
  case (1 g seen component)
  then show ?case by simp
next
  case (2 g src stack seen component)
  show ?case
  proof (cases "src \<in> seen")
    case True
    with 2 show ?thesis by auto
  next
    case False
    have "set (foldl (addToStack (insert src seen)) stack (forEachNeighbor g src)) \<subseteq> A"
      using "2.prems" by (auto simp: foldl_addToStack closed_def)
    with 2 False show ?thesis by simp
  qed
qed

lemma component_while_snd:
  "\<exists>new. component_while g stack seen [] = (seen \<union> set new, new) \<and>
     distinct new \<and> set new \<inter> seen = {} \<and> set stack \<subseteq> seen \<union> set new"
proof -
  obtain new where new: "component_while g stack seen [] = (seen \<union> set new, [] @ new)"
    "distinct new" "set new \<inter> seen = {}"
    using component_while_new[of g stack seen "[]"] by blast
  moreover have "set stack \<subseteq> seen \<union> set new"
    using component_while_stack_seen[of stack g seen "[]"] new(1) by simp
  ultimately show ?thesis by auto
qed

lemma nodes_partition:
  "distinct (concat (forEachConnectedComponent_nodes g ns seen)) \<and>
   set (concat (forEachConnectedComponent_nodes g ns seen)) \<inter> seen = {} \<and>
   set ns \<subseteq> seen \<union> set (concat (forEachConnectedComponent_nodes g ns seen)) \<and>
   [] \<notin> set (forEachConnectedComponent_nodes g ns seen)"
proof (induction ns arbitrary: seen)
  case Nil
  show ?case by simp
next
  case (Cons node rest)
  show ?case
  proof (cases "node \<in> seen")
    case True
    with Cons[of seen] show ?thesis by auto
  next
    case False
    obtain new where new: "component_while g [node] seen [] = (seen \<union> set new, new)"
      "distinct new" "set new \<inter> seen = {}" "set [node] \<subseteq> seen \<union> set new"
      using component_while_snd[of g "[node]" seen] by blast
    from False new(4) have "new \<noteq> []" by auto
    with False new Cons[of "seen \<union> set new"] show ?thesis by auto
  qed
qed

lemma nodes_within:
  "closed g A \<Longrightarrow> set ns \<subseteq> A \<Longrightarrow> seen \<subseteq> A \<Longrightarrow>
   set (concat (forEachConnectedComponent_nodes g ns seen)) \<subseteq> A"
proof (induction ns arbitrary: seen)
  case Nil
  show ?case by simp
next
  case (Cons node rest)
  show ?case
  proof (cases "node \<in> seen")
    case True
    with Cons show ?thesis by auto
  next
    case False
    obtain new where new: "component_while g [node] seen [] = (seen \<union> set new, new)"
      using component_while_snd[of g "[node]" seen] by blast
    have "fst (component_while g [node] seen []) \<subseteq> A"
      using Cons.prems by (intro component_while_within) auto
    with new have sub: "seen \<union> set new \<subseteq> A" by simp
    with Cons.IH[of "seen \<union> set new"] Cons.prems have
      "set (concat (forEachConnectedComponent_nodes g rest (seen \<union> set new))) \<subseteq> A" by auto
    with False new sub show ?thesis by auto
  qed
qed

lemma forEachConnectedComponent_partition:
  assumes "well_formed g"
  shows "distinct (concat (forEachConnectedComponent g))"
    and "set (concat (forEachConnectedComponent g)) = set (nodes g)"
    and "[] \<notin> set (forEachConnectedComponent g)"
proof -
  show "distinct (concat (forEachConnectedComponent g))" "[] \<notin> set (forEachConnectedComponent g)"
    using nodes_partition[of g "nodes g" "{}"] by (auto simp: forEachConnectedComponent_def)
  have "set (concat (forEachConnectedComponent_nodes g (nodes g) {})) \<subseteq> set (nodes g)"
    using well_formed_closed[OF assms] by (intro nodes_within) auto
  moreover have "set (nodes g) \<subseteq> set (concat (forEachConnectedComponent_nodes g (nodes g) {}))"
    using nodes_partition[of g "nodes g" "{}"] by auto
  ultimately show "set (concat (forEachConnectedComponent g)) = set (nodes g)"
    by (auto simp: forEachConnectedComponent_def order_def nodes_def)
qed

lemma order_while_component_while:
  "order_while g stack seen (length component) =
     map_prod id length (component_while g stack seen component)"
proof (induction g stack seen component rule: component_while.induct)
  case (1 g seen component)
  show ?case by simp
next
  case (2 g src stack seen component)
  then show ?case by (cases "src \<in> seen") simp_all
qed

lemma order_nodes_component_nodes:
  "forEachConnectedComponentOrder_nodes g ns seen =
     map length (forEachConnectedComponent_nodes g ns seen)"
proof (induction ns arbitrary: seen)
  case Nil
  show ?case by simp
next
  case (Cons node rest)
  show ?case
  proof (cases "node \<in> seen")
    case True
    with Cons show ?thesis by simp
  next
    case False
    obtain seen' component where cw: "component_while g [node] seen [] = (seen', component)"
      by (cases "component_while g [node] seen []")
    have "order_while g [node] seen (length ([] :: 'a list))
            = map_prod id length (component_while g [node] seen [])"
      by (rule order_while_component_while)
    then have "order_while g [node] seen 0 = (seen', length component)"
      by (simp only: cw list.size map_prod_simp id_apply)
    with cw False Cons[of seen'] show ?thesis
      by (simp del: component_while.simps order_while.simps)
  qed
qed

lemma no_edges_nodes:
  assumes "edge_entries g = []"
  shows "distinct ns \<Longrightarrow> set ns \<inter> seen = {} \<Longrightarrow>
         forEachConnectedComponent_nodes g ns seen = map (\<lambda>node. [node]) ns"
proof (induction ns arbitrary: seen)
  case Nil
  show ?case by simp
next
  case (Cons node rest)
  have nb: "forEachNeighbor g node = []"
    using assms
    by (simp add: forEachNeighbor_def in_neighbors_def out_neighbors_def undirected_neighbors_def
        dedup_def)
  have "component_while g [node] seen [] = (insert node seen, [node])"
    using Cons.prems(2) by (simp add: nb)
  moreover have "forEachConnectedComponent_nodes g rest (insert node seen) = map (\<lambda>node. [node]) rest"
    using Cons.prems by (intro Cons.IH) auto
  ultimately show ?case using Cons.prems(2) by simp
qed

subsection \<open>The largest component\<close>


lemma foldl_keep_larger_same:
  "\<forall>c \<in> set cs. length c \<le> length best \<Longrightarrow> foldl keep_larger best cs = best"
  by (induction cs) (auto simp: keep_larger_def)

lemma nodes_component_bound:
  assumes "closed g A" "finite A" "set ns \<subseteq> A" "seen \<subseteq> A"
    and "c \<in> set (forEachConnectedComponent_nodes g ns seen)"
  shows "length c \<le> card A - card seen"
proof -
  let ?cs = "forEachConnectedComponent_nodes g ns seen"
  have sub: "set c \<subseteq> set (concat ?cs)" using assms(5) by auto
  have "distinct (concat ?cs)" using nodes_partition[of g ns seen] by simp
  with assms(5) have "distinct c" by (auto simp: distinct_concat_iff)
  then have "length c = card (set c)" by (simp add: distinct_card)
  moreover have "set c \<subseteq> A - seen"
    using sub nodes_partition[of g ns seen] nodes_within[OF assms(1,3,4)] by blast
  then have "card (set c) \<le> card (A - seen)"
    using assms(2) by (intro card_mono) auto
  moreover have "card (A - seen) = card A - card seen"
    using assms(2,4) by (intro card_Diff_subset) (auto intro: finite_subset)
  ultimately show ?thesis by simp
qed

lemma largest_nodes_foldl:
  assumes "closed g A" "finite A" "card A = ord"
  shows "set ns \<subseteq> A \<Longrightarrow> seen \<subseteq> A \<Longrightarrow>
         largestConnectedComponent_nodes g ord ns seen best =
           foldl keep_larger best (forEachConnectedComponent_nodes g ns seen)"
proof (induction ns arbitrary: seen best)
  case Nil
  show ?case by simp
next
  case (Cons node rest)
  show ?case
  proof (cases "node \<in> seen")
    case True
    with Cons show ?thesis by simp
  next
    case False
    obtain new where cw: "component_while g [node] seen [] = (seen \<union> set new, new)"
      using component_while_snd[of g "[node]" seen] by blast
    have "fst (component_while g [node] seen []) \<subseteq> A"
      using Cons.prems assms(1) by (intro component_while_within) auto
    with cw have sub: "seen \<union> set new \<subseteq> A" by simp
    let ?best = "keep_larger best new"
    let ?rest = "forEachConnectedComponent_nodes g rest (seen \<union> set new)"
    have IH: "largestConnectedComponent_nodes g ord rest (seen \<union> set new) ?best
                = foldl keep_larger ?best ?rest"
      using Cons.prems sub by (intro Cons.IH) auto
    have fin: "finite (seen \<union> set new)" using sub assms(2) by (rule finite_subset)
    have step: "largestConnectedComponent_nodes g ord (node # rest) seen best =
        (if int (length ?best) > int ord - int (card (seen \<union> set new)) then ?best
         else largestConnectedComponent_nodes g ord rest (seen \<union> set new) ?best)"
      using False cw by (simp add: keep_larger_def Let_def del: component_while.simps)
    have emitted: "foldl keep_larger best (forEachConnectedComponent_nodes g (node # rest) seen)
        = foldl keep_larger ?best ?rest"
      using False cw by (simp del: component_while.simps)
    have le: "card (seen \<union> set new) \<le> ord"
      using sub assms(2,3) card_mono by blast
    show ?thesis
    proof (cases "int (length ?best) > int ord - int (card (seen \<union> set new))")
      case True
      have "length c \<le> length ?best" if "c \<in> set ?rest" for c
      proof -
        have "length c \<le> card A - card (seen \<union> set new)"
          using assms(1,2) _ sub that by (rule nodes_component_bound) (use Cons.prems in auto)
        with True assms(3) le show ?thesis by linarith
      qed
      then have "foldl keep_larger ?best ?rest = ?best"
        by (intro foldl_keep_larger_same) blast
      with True show ?thesis unfolding step emitted by simp
    next
      case no_exit: False
      with IH show ?thesis unfolding step emitted by simp
    qed
  qed
qed

lemma foldl_keep_larger_first_max:
  "foldl keep_larger best cs = best \<and> (\<forall>c \<in> set cs. length c \<le> length best) \<or>
   (\<exists>i < length cs. cs ! i = foldl keep_larger best cs \<and>
      length best < length (cs ! i) \<and>
      (\<forall>j < length cs. length (cs ! j) \<le> length (cs ! i)) \<and>
      (\<forall>j < i. length (cs ! j) < length (cs ! i)))"
proof (induction cs rule: rev_induct)
  case Nil
  show ?case by simp
next
  case (snoc c cs)
  let ?r = "foldl keep_larger best cs"
  have all: "\<forall>j < length cs. length (cs ! j) \<le> length ?r"
    using snoc by (auto simp: all_set_conv_all_nth)
  have ge: "length best \<le> length ?r" using snoc by auto
  show ?case
  proof (cases "length c > length ?r")
    case True
    then have r: "foldl keep_larger best (cs @ [c]) = c" by (simp add: keep_larger_def)
    have "\<forall>j < length (cs @ [c]). length ((cs @ [c]) ! j) \<le> length c"
      using all True by (auto simp: nth_append less_Suc_eq)
    moreover have "\<forall>j < length cs. length ((cs @ [c]) ! j) < length c"
      using all True by (auto simp: nth_append)
    ultimately show ?thesis
      using ge True r by (intro disjI2 exI[of _ "length cs"]) (simp add: nth_append)
  next
    case False
    then have r: "foldl keep_larger best (cs @ [c]) = ?r" by (simp add: keep_larger_def)
    from snoc show ?thesis
    proof
      assume "?r = best \<and> (\<forall>c \<in> set cs. length c \<le> length best)"
      with False r show ?thesis by auto
    next
      assume "\<exists>i < length cs. cs ! i = ?r \<and> length best < length (cs ! i) \<and>
        (\<forall>j < length cs. length (cs ! j) \<le> length (cs ! i)) \<and>
        (\<forall>j < i. length (cs ! j) < length (cs ! i))"
      then obtain i where i: "i < length cs" "cs ! i = ?r" "length best < length (cs ! i)"
        "\<forall>j < length cs. length (cs ! j) \<le> length (cs ! i)"
        "\<forall>j < i. length (cs ! j) < length (cs ! i)"
        by blast
      have "\<forall>j < length (cs @ [c]). length ((cs @ [c]) ! j) \<le> length ((cs @ [c]) ! i)"
        using i False by (auto simp: nth_append less_Suc_eq)
      moreover have "\<forall>j < i. length ((cs @ [c]) ! j) < length ((cs @ [c]) ! i)"
        using i by (auto simp: nth_append)
      ultimately show ?thesis
        using i r by (intro disjI2 exI[of _ i]) (simp add: nth_append)
    qed
  qed
qed

lemma card_nodes:
  assumes "well_formed g"
  shows "card (set (nodes g)) = order g"
proof -
  have "distinct (nodes g)" using assms by (simp add: well_formed_def)
  then have "card (set (nodes g)) = length (nodes g)" by (rule distinct_card)
  then show ?thesis by (simp add: order_def nodes_def)
qed

lemma largestConnectedComponent_foldl:
  assumes "well_formed g"
  shows "largestConnectedComponent g = foldl keep_larger [] (forEachConnectedComponent g)"
proof (cases "order g = 0")
  case True
  then show ?thesis by (simp add: largestConnectedComponent_def forEachConnectedComponent_def)
next
  case False
  from largest_nodes_foldl[OF well_formed_closed[OF assms] _ card_nodes[OF assms], of "nodes g" "{}" "[]"] False
  show ?thesis by (simp add: largestConnectedComponent_def forEachConnectedComponent_def)
qed

lemma largest_is_component:
  assumes "well_formed g" "order g \<noteq> 0"
  shows "largestConnectedComponent g \<in> set (forEachConnectedComponent g)"
proof -
  let ?cs = "forEachConnectedComponent g"
  have "nodes g \<noteq> []" using assms(2) by (simp add: order_def nodes_def)
  then have "set (concat ?cs) \<noteq> {}"
    using forEachConnectedComponent_partition(2)[OF assms(1)] by simp
  then obtain c where c: "c \<in> set ?cs" by auto
  moreover have "[] \<notin> set ?cs" using assms(1) by (rule forEachConnectedComponent_partition)
  ultimately have "c \<noteq> []" by auto
  with c have "\<not> (\<forall>c \<in> set ?cs. length c \<le> length ([] :: 'a list))" by auto
  with foldl_keep_larger_first_max[of "[]" ?cs]
  obtain i where "i < length ?cs" "?cs ! i = foldl keep_larger [] ?cs" by blast
  then have "foldl keep_larger [] ?cs \<in> set ?cs" using nth_mem[of i ?cs] by simp
  then show ?thesis by (simp only: largestConnectedComponent_foldl[OF assms(1)])
qed

subsection \<open>Every emitted component in its context\<close>

lemma nodes_all_seen:
  "set ns \<subseteq> seen \<Longrightarrow> forEachConnectedComponent_nodes g ns seen = []"
  by (induction ns) auto

lemma closed_difference:
  assumes "closed g A" "closed g (A \<union> B)" "A \<inter> B = {}"
  shows "closed g B"
  unfolding closed_def
proof (intro ballI subsetI)
  fix v w assume v: "v \<in> B" and w: "w \<in> set (forEachNeighbor g v)"
  with assms(2) have "w \<in> A \<union> B" by (auto simp: closed_def)
  moreover have "w \<notin> A"
  proof
    assume "w \<in> A"
    moreover have "v \<in> set (forEachNeighbor g w)" using w by (simp add: forEachNeighbor_sym)
    ultimately have "v \<in> A" using assms(1) by (auto simp: closed_def)
    with v assms(3) show False by auto
  qed
  ultimately show "w \<in> B" by simp
qed

lemma nodes_component_context:
  assumes "c \<in> set (forEachConnectedComponent_nodes g ns seen)" "closed g seen"
  shows "\<exists>pre r post seen0. ns = pre @ r # post \<and> set pre \<subseteq> seen0 \<and> seen \<subseteq> seen0 \<and>
           r \<notin> seen0 \<and> closed g seen0 \<and>
           component_while g [r] seen0 [] = (seen0 \<union> set c, c) \<and>
           set c \<inter> seen0 = {} \<and> r \<in> set c"
  using assms
proof (induction ns arbitrary: seen)
  case Nil
  then show ?case by simp
next
  case (Cons node rest)
  show ?case
  proof (cases "node \<in> seen")
    case True
    with Cons.prems have "c \<in> set (forEachConnectedComponent_nodes g rest seen)" by simp
    from Cons.IH[OF this Cons.prems(2)] obtain pre r post seen0 where
      h: "rest = pre @ r # post" "set pre \<subseteq> seen0" "seen \<subseteq> seen0" "r \<notin> seen0"
      "closed g seen0" "component_while g [r] seen0 [] = (seen0 \<union> set c, c)"
      "set c \<inter> seen0 = {}" "r \<in> set c"
      by blast
    from h True have "node # rest = (node # pre) @ r # post" "set (node # pre) \<subseteq> seen0"
      by auto
    with h show ?thesis by blast
  next
    case False
    obtain new where new: "component_while g [node] seen [] = (seen \<union> set new, new)"
      "set new \<inter> seen = {}" "set [node] \<subseteq> seen \<union> set new"
      using component_while_snd[of g "[node]" seen] by blast
    from Cons.prems(1) False new(1)
    consider "c = new" | "c \<in> set (forEachConnectedComponent_nodes g rest (seen \<union> set new))"
      by (auto simp del: component_while.simps)
    then show ?thesis
    proof cases
      case 1
      have "node # rest = [] @ node # rest" "set [] \<subseteq> seen" "node \<in> set c"
        using new(3) False 1 by auto
      with 1 new False Cons.prems(2) show ?thesis by blast
    next
      case 2
      have "closed g (fst (component_while g [node] seen []))"
        using Cons.prems(2) by (intro component_while_closed) (auto simp: closed_def)
      then have "closed g (seen \<union> set new)" by (simp only: new(1) fst_conv)
      from Cons.IH[OF 2 this] obtain pre r post seen0 where
        h: "rest = pre @ r # post" "set pre \<subseteq> seen0" "seen \<union> set new \<subseteq> seen0" "r \<notin> seen0"
        "closed g seen0" "component_while g [r] seen0 [] = (seen0 \<union> set c, c)"
        "set c \<inter> seen0 = {}" "r \<in> set c"
        by blast
      from h new(3) have "node # rest = (node # pre) @ r # post" "set (node # pre) \<subseteq> seen0"
        "seen \<subseteq> seen0"
        by auto
      with h show ?thesis by blast
    qed
  qed
qed

lemma component_while_cong:
  "closed g A \<Longrightarrow> \<forall>v \<in> A. forEachNeighbor g' v = forEachNeighbor g v \<Longrightarrow>
   set stack \<subseteq> A \<Longrightarrow> seen \<inter> A = seen' \<inter> A \<Longrightarrow>
   snd (component_while g' stack seen' component) = snd (component_while g stack seen component)"
proof (induction g stack seen component arbitrary: seen' rule: component_while.induct)
  case (1 g seen component)
  show ?case by simp
next
  case (2 g src stack seen component)
  have src: "src \<in> A" using "2.prems" by simp
  with "2.prems" have iff: "src \<in> seen \<longleftrightarrow> src \<in> seen'" by blast
  show ?case
  proof (cases "src \<in> seen")
    case True
    with iff "2.IH"(1)[OF True "2.prems"(1,2), of seen'] "2.prems" show ?thesis by simp
  next
    case False
    have nb: "set (forEachNeighbor g src) \<subseteq> A" "forEachNeighbor g' src = forEachNeighbor g src"
      using "2.prems"(1,2) src by (auto simp: closed_def)
    have "filter (\<lambda>t. t \<notin> insert src seen') (forEachNeighbor g src)
            = filter (\<lambda>t. t \<notin> insert src seen) (forEachNeighbor g src)"
      using nb(1) "2.prems"(4) by (intro filter_cong) auto
    then have same: "foldl (addToStack (insert src seen')) stack (forEachNeighbor g' src)
            = foldl (addToStack (insert src seen)) stack (forEachNeighbor g src)"
      by (simp add: foldl_addToStack nb(2))
    have "set (foldl (addToStack (insert src seen)) stack (forEachNeighbor g src)) \<subseteq> A"
      using nb(1) "2.prems"(3) by (auto simp: foldl_addToStack)
    moreover have "insert src seen \<inter> A = insert src seen' \<inter> A"
      using "2.prems"(4) by auto
    ultimately have "snd (component_while g' (foldl (addToStack (insert src seen)) stack (forEachNeighbor g src))
              (insert src seen') (component @ [src]))
            = snd (component_while g (foldl (addToStack (insert src seen)) stack (forEachNeighbor g src))
              (insert src seen) (component @ [src]))"
      using "2.IH"(2)[OF False "2.prems"(1,2)] by blast
    with False iff same show ?thesis by simp
  qed
qed

lemma component_context:
  assumes "c \<in> set (forEachConnectedComponent g)"
  shows "\<exists>pre r post seen0. nodes g = pre @ r # post \<and> set pre \<subseteq> seen0 \<and> r \<notin> seen0 \<and>
           closed g seen0 \<and> component_while g [r] seen0 [] = (seen0 \<union> set c, c) \<and>
           set c \<inter> seen0 = {} \<and> r \<in> set c"
proof -
  from assms have "c \<in> set (forEachConnectedComponent_nodes g (nodes g) {})"
    by (simp add: forEachConnectedComponent_def split: if_splits)
  moreover have "closed g {}" by (simp add: closed_def)
  ultimately show ?thesis using nodes_component_context[of c g "nodes g" "{}"] by blast
qed

lemma component_closed:
  assumes "c \<in> set (forEachConnectedComponent g)"
  shows "closed g (set c)"
proof -
  from component_context[OF assms] obtain r seen0 where
    h: "closed g seen0" "component_while g [r] seen0 [] = (seen0 \<union> set c, c)" "set c \<inter> seen0 = {}"
    by blast
  have "closed g (fst (component_while g [r] seen0 []))"
    using h(1) by (intro component_while_closed) (auto simp: closed_def)
  then have "closed g (seen0 \<union> set c)" by (simp only: h(2) fst_conv)
  with h(1) show ?thesis using h(3) by (auto intro: closed_difference[of g seen0 "set c"])
qed

lemma component_nodes:
  assumes "well_formed g" "c \<in> set (forEachConnectedComponent g)"
  shows "set c \<subseteq> set (nodes g)"
  using forEachConnectedComponent_partition(2)[OF assms(1)] assms(2) by auto

subsection \<open>The cropped graph\<close>

lemma crop_nodes_result:
  "node_entries (cropToLargestConnectedComponent_nodes C ks g) =
     filter (\<lambda>entry. fst entry \<in> C \<or> fst entry \<notin> set ks) (node_entries g) \<and>
   edge_entries (cropToLargestConnectedComponent_nodes C ks g) =
     filter (\<lambda>e. (source e \<in> C \<or> source e \<notin> set ks) \<and> (target e \<in> C \<or> target e \<notin> set ks))
       (edge_entries g) \<and>
   type (cropToLargestConnectedComponent_nodes C ks g) = type g"
proof (induction ks arbitrary: g)
  case Nil
  show ?case by simp
next
  case (Cons k rest)
  show ?case
  proof (cases "k \<in> C")
    case True
    with Cons[of g] show ?thesis by (auto intro: filter_cong)
  next
    case False
    with Cons[of "dropNode g k"] show ?thesis
      by (auto simp: dropNode_def intro: filter_cong)
  qed
qed

lemma crop_result:
  assumes "well_formed g"
  shows "node_entries (cropToLargestConnectedComponent g) =
           filter (\<lambda>entry. fst entry \<in> set (largestConnectedComponent g)) (node_entries g)"
    and "edge_entries (cropToLargestConnectedComponent g) =
           filter (\<lambda>e. source e \<in> set (largestConnectedComponent g) \<and>
                        target e \<in> set (largestConnectedComponent g)) (edge_entries g)"
    and "nodes (cropToLargestConnectedComponent g) =
           filter (\<lambda>k. k \<in> set (largestConnectedComponent g)) (nodes g)"
proof -
  let ?C = "set (largestConnectedComponent g)"
  note r = crop_nodes_result[of ?C "nodes g" g, folded cropToLargestConnectedComponent_def]
  show n: "node_entries (cropToLargestConnectedComponent g) =
           filter (\<lambda>entry. fst entry \<in> ?C) (node_entries g)"
    using r by (auto simp: nodes_def intro: filter_cong)
  show "edge_entries (cropToLargestConnectedComponent g) =
           filter (\<lambda>e. source e \<in> ?C \<and> target e \<in> ?C) (edge_entries g)"
    using r assms by (auto simp: well_formed_def intro: filter_cong)
  show "nodes (cropToLargestConnectedComponent g) = filter (\<lambda>k. k \<in> ?C) (nodes g)"
    unfolding nodes_def n by (simp add: filter_map comp_def)
qed

lemma closed_edge:
  assumes "closed g C" "e \<in> set (edge_entries g)" "source e \<in> C \<or> target e \<in> C"
  shows "source e \<in> C \<and> target e \<in> C"
proof -
  have "target e \<in> set (forEachNeighbor g (source e))" "source e \<in> set (forEachNeighbor g (target e))"
    using assms(2) by (auto simp: set_forEachNeighbor)
  with assms(1,3) show ?thesis by (auto simp: closed_def)
qed

lemma restricted_neighbors:
  assumes "closed g C" "v \<in> C"
    and "edge_entries g' = filter (\<lambda>e. source e \<in> C \<and> target e \<in> C) (edge_entries g)"
  shows "forEachNeighbor g' v = forEachNeighbor g v"
proof -
  have keep: "source e \<in> C \<and> target e \<in> C"
    if "e \<in> set (edge_entries g)" "source e = v \<or> target e = v" for e
    using closed_edge[OF assms(1) that(1)] that(2) assms(2) by auto
  have "in_neighbors g' v = in_neighbors g v"
    unfolding in_neighbors_def assms(3) filter_filter
    by (rule arg_cong[where f = "map source"], rule filter_cong) (use keep in auto)
  moreover have "out_neighbors g' v = out_neighbors g v"
    unfolding out_neighbors_def assms(3) filter_filter
    by (rule arg_cong[where f = "map target"], rule filter_cong) (use keep in auto)
  moreover have "undirected_neighbors g' v = undirected_neighbors g v"
    unfolding undirected_neighbors_def assms(3) filter_filter
    by (rule arg_cong[where f = "map _"], rule filter_cong) (use keep in auto)
  ultimately show ?thesis by (simp add: forEachNeighbor_def)
qed

lemma restricted_components:
  assumes c: "c \<in> set (forEachConnectedComponent g)"
    and n: "nodes g' = filter (\<lambda>k. k \<in> set c) (nodes g)"
    and e: "edge_entries g' = filter (\<lambda>e. source e \<in> set c \<and> target e \<in> set c) (edge_entries g)"
  shows "forEachConnectedComponent g' = [c]"
proof -
  from component_context[OF c] obtain pre r post seen0 where
    h: "nodes g = pre @ r # post" "set pre \<subseteq> seen0" "closed g seen0"
    "component_while g [r] seen0 [] = (seen0 \<union> set c, c)" "set c \<inter> seen0 = {}" "r \<in> set c"
    by blast
  have cl: "closed g (set c)" using c by (rule component_closed)
  have "filter (\<lambda>k. k \<in> set c) pre = []" using h(2,5) by (auto simp: filter_empty_conv)
  with h(1,6) n have n': "nodes g' = r # filter (\<lambda>k. k \<in> set c) post" by simp
  have same: "\<forall>v \<in> set c. forEachNeighbor g' v = forEachNeighbor g v"
    using restricted_neighbors[OF cl _ e] by blast
  have "snd (component_while g' [r] {} []) = snd (component_while g [r] seen0 [])"
    using cl same h(5,6) by (intro component_while_cong[of g "set c"]) auto
  then have "snd (component_while g' [r] {} []) = c" by (simp only: h(4) snd_conv)
  moreover obtain new where "component_while g' [r] {} [] = ({} \<union> set new, new)"
    using component_while_snd[of g' "[r]" "{}"] by blast
  ultimately have run: "component_while g' [r] {} [] = (set c, c)" by simp
  have "forEachConnectedComponent_nodes g' (filter (\<lambda>k. k \<in> set c) post) (set c) = []"
    by (intro nodes_all_seen) auto
  with run have "forEachConnectedComponent_nodes g' (nodes g') {} = [c]"
    unfolding n' by (simp del: component_while.simps)
  moreover have "order g' \<noteq> 0" using n' by (auto simp: order_def nodes_def)
  ultimately show ?thesis by (simp add: forEachConnectedComponent_def)
qed

subsection \<open>The subgraph\<close>

lemma subgraph_nodes_result:
  "set ks \<subseteq> set (nodes g) \<Longrightarrow>
   \<exists>S2 entries. largestConnectedComponentSubgraph_nodes g ks S1 = Inr S2 \<and>
     node_entries S2 = node_entries S1 @ entries \<and> map fst entries = ks \<and>
     (\<forall>entry \<in> set entries. getNodeAttributes g (fst entry) = Some (snd entry)) \<and>
     edge_entries S2 = edge_entries S1 \<and> type S2 = type S1"
proof (induction ks arbitrary: S1)
  case Nil
  show ?case by simp
next
  case (Cons k rest)
  from Cons.prems have "k \<in> fst ` set (node_entries g)" by (simp add: nodes_def)
  then obtain a where a: "getNodeAttributes g k = Some a"
    unfolding getNodeAttributes_def by (metis domD dom_map_of_conv_image_fst)
  from Cons.IH[of "copyNode S1 k a"] Cons.prems obtain S2 entries where
    h: "largestConnectedComponentSubgraph_nodes g rest (copyNode S1 k a) = Inr S2"
    "node_entries S2 = node_entries (copyNode S1 k a) @ entries" "map fst entries = rest"
    "\<forall>entry \<in> set entries. getNodeAttributes g (fst entry) = Some (snd entry)"
    "edge_entries S2 = edge_entries (copyNode S1 k a)" "type S2 = type (copyNode S1 k a)"
    by auto
  show ?case
    by (rule exI[of _ S2], rule exI[of _ "(k, a) # entries"]) (use a h in \<open>simp add: copyNode_def\<close>)
qed

lemma subgraph_edges_result:
  "node_entries (largestConnectedComponentSubgraph_edges es S1) = node_entries S1 \<and>
   edge_entries (largestConnectedComponentSubgraph_edges es S1) =
     edge_entries S1 @ filter (\<lambda>e. source e \<in> set (nodes S1)) es \<and>
   type (largestConnectedComponentSubgraph_edges es S1) = type S1"
proof (induction es arbitrary: S1)
  case Nil
  show ?case by simp
next
  case (Cons e rest)
  have same: "copyEdge S1 (undirected e) (key e) (source e) (target e) (attr e)
                = S1\<lparr>edge_entries := edge_entries S1 @ [e]\<rparr>"
    by (simp add: copyEdge_def)
  show ?case
  proof (cases "hasNode S1 (source e)")
    case True
    with Cons[of "S1\<lparr>edge_entries := edge_entries S1 @ [e]\<rparr>"]
    show ?thesis by (simp add: same hasNode_def nodes_def)
  next
    case False
    with Cons[of S1] show ?thesis by (simp add: hasNode_def)
  qed
qed

subsection \<open>The runs on the mutable graph\<close>

lemma component_while_run_eq:
  "component_while_run g stack seen component = (component_while g stack seen component, g)"
proof (induction g stack seen component rule: component_while.induct)
  case (1 g seen component)
  show ?case by simp
next
  case (2 g src stack seen component)
  then show ?case by (cases "src \<in> seen") (simp_all add: forEachNeighbor_run_def)
qed

lemma order_while_run_eq:
  "order_while_run g stack seen ord = (order_while g stack seen ord, g)"
proof (induction g stack seen ord rule: order_while.induct)
  case (1 g seen ord)
  show ?case by simp
next
  case (2 g src stack seen ord)
  then show ?case by (cases "src \<in> seen") (simp_all add: forEachNeighbor_run_def)
qed

lemma forEachConnectedComponent_nodes_run_eq:
  "forEachConnectedComponent_nodes_run g ns seen = (forEachConnectedComponent_nodes g ns seen, g)"
proof (induction ns arbitrary: seen)
  case Nil
  show ?case by simp
next
  case (Cons node rest)
  obtain seen' component where cw: "component_while g [node] seen [] = (seen', component)"
    by (cases "component_while g [node] seen []")
  with Cons show ?case
    by (simp add: component_while_run_eq del: component_while.simps component_while_run.simps)
qed

lemma forEachConnectedComponentOrder_nodes_run_eq:
  "forEachConnectedComponentOrder_nodes_run g ns seen =
     (forEachConnectedComponentOrder_nodes g ns seen, g)"
proof (induction ns arbitrary: seen)
  case Nil
  show ?case by simp
next
  case (Cons node rest)
  obtain seen' ord where ow: "order_while g [node] seen 0 = (seen', ord)"
    by (cases "order_while g [node] seen 0")
  with Cons show ?case
    by (simp add: order_while_run_eq del: order_while.simps order_while_run.simps)
qed

lemma largestConnectedComponent_nodes_run_eq:
  "largestConnectedComponent_nodes_run g ord ns seen best =
     (largestConnectedComponent_nodes g ord ns seen best, g)"
proof (induction ns arbitrary: seen best)
  case Nil
  show ?case by simp
next
  case (Cons node rest)
  obtain seen' component where cw: "component_while g [node] seen [] = (seen', component)"
    by (cases "component_while g [node] seen []")
  with Cons show ?case
    by (simp add: component_while_run_eq Let_def
        del: component_while.simps component_while_run.simps)
qed

section \<open>Properties of the strong walker\<close>

lemma extends_refl: "extends st st"
  by (auto simp: extends_def)

lemma extends_trans:
  assumes "extends a b" "extends b c"
  shows "extends a c"
proof -
  have ab: "preorder a \<subseteq>\<^sub>m preorder b" and bc: "preorder b \<subseteq>\<^sub>m preorder c"
    and cnt: "count a \<le> count b"
    and new_ab: "\<And>v k. preorder a v = None \<Longrightarrow> preorder b v = Some k \<Longrightarrow> count a \<le> k"
    and new_bc: "\<And>v k. preorder b v = None \<Longrightarrow> preorder c v = Some k \<Longrightarrow> count b \<le> k"
    using assms by (auto simp: extends_def)
  have "preorder a \<subseteq>\<^sub>m preorder c"
    using ab bc by (rule map_le_trans)
  moreover have "count a \<le> k" if "preorder a v = None" "preorder c v = Some k" for v k
  proof (cases "preorder b v")
    case None
    with that new_bc[of v k] cnt show ?thesis by simp
  next
    case (Some j)
    with bc that have "j = k" by (auto simp: map_le_def dom_def)
    with Some that new_ab[of v k] show ?thesis by simp
  qed
  moreover have "suffix (S a) (S c)" "suffix (P c) (P a)"
    using assms by (auto simp: extends_def intro: suffix_order.trans)
  moreover have "assigned a \<subseteq> assigned c" "count a \<le> count c"
    "\<forall>r k. rooted r k a \<longrightarrow> rooted r k c"
    using assms by (auto simp: extends_def)
  ultimately show ?thesis unfolding extends_def by blast
qed

lemma unvisited_mono:
  "extends st st' \<Longrightarrow> unvisited g st' \<le> unvisited g st"
  unfolding unvisited_def extends_def
  by (intro card_mono) (auto dest: map_le_implies_dom_le)

lemma pop_while_suffix: "suffix (pop_while pre k ps) ps"
  by (induction ps) (auto simp: suffix_Cons split: option.splits)

lemma pop_while_last:
  "ps \<noteq> [] \<Longrightarrow> pre (last ps) = Some c \<Longrightarrow> c \<le> k \<Longrightarrow>
   pop_while pre k ps \<noteq> [] \<and> last (pop_while pre k ps) = last ps"
  by (induction ps) (auto split: option.splits)

lemma pop_component_split:
  "node \<notin> set zs \<Longrightarrow>
   pop_component node (zs @ node # rest) component asg =
     Some (rest, component @ zs @ [node], asg \<union> set zs \<union> {node})"
  by (induction zs arbitrary: component asg) auto

lemma pushed_inv:
  assumes "scc_inv g st" "node \<in> set (nodes g)" "preorder st node = None"
  shows "scc_inv g (pushed node st)"
proof -
  have "node \<notin> assigned st" "node \<notin> set (S st)"
    using assms by (auto simp: scc_inv_def)
  moreover have "\<forall>v k. ((preorder st)(node \<mapsto> count st)) v = Some k \<longrightarrow> k < count st + 1"
    using assms(1) by (auto simp: scc_inv_def less_Suc_eq)
  ultimately show ?thesis
    using assms unfolding scc_inv_def pushed_def by (simp add: insert_Diff_if) blast
qed

lemma pushed_rooted:
  assumes "scc_inv g st" "rooted r c st" "preorder st node = None"
  shows "rooted r c (pushed node st)"
proof -
  have "c < count st" "node \<noteq> r"
    using assms by (auto simp: scc_inv_def rooted_def)
  then show ?thesis
    using assms(2) unfolding rooted_def pushed_def by auto
qed

lemma pushed_unvisited:
  assumes "node \<in> set (nodes g)" "preorder st node = None"
  shows "Suc (unvisited g (pushed node st)) = unvisited g st"
proof -
  have "set (nodes g) - dom (preorder (pushed node st)) = (set (nodes g) - dom (preorder st)) - {node}"
    by (auto simp: pushed_def)
  moreover have "node \<in> set (nodes g) - dom (preorder st)"
    using assms by (auto simp: dom_def)
  moreover have "finite (set (nodes g) - dom (preorder st))" by simp
  ultimately show ?thesis
    unfolding unvisited_def using card_Suc_Diff1[of "set (nodes g) - dom (preorder st)" node]
    by simp
qed

lemma emitted_inv:
  assumes "scc_inv g st" "S st = zs @ node # rest"
  shows "scc_inv g (st\<lparr>S := rest, assigned := assigned st \<union> set zs \<union> {node},
           components := components st @ [zs @ [node]], P := ps\<rparr>)"
proof -
  have d: "distinct (zs @ node # rest)" and s: "set (zs @ node # rest) = dom (preorder st) - assigned st"
    using assms by (auto simp: scc_inv_def)
  have "set rest = dom (preorder st) - (assigned st \<union> set zs \<union> {node})"
    using d s by auto
  moreover have "assigned st \<union> set zs \<union> {node} \<subseteq> dom (preorder st)"
    using s assms(1) by (auto simp: scc_inv_def)
  moreover have "set (zs @ [node]) \<inter> assigned st = {}"
    using s by auto
  moreover have "distinct (zs @ [node])" "distinct rest"
    using d by auto
  ultimately show ?thesis
    using assms(1) unfolding scc_inv_def by simp blast
qed

lemma DFS_Suc:
  "DFS (Suc depth) g node st =
     (case DFS_neighbors depth g (outboundNeighbors g node) (pushed node st) of
        None \<Rightarrow> None | Some st' \<Rightarrow> finish node st')"
  by (simp add: pushed_def finish_def split: option.split)

lemma extends_pushed:
  assumes "preorder st node = None" "extends (pushed node st) st2"
  shows "preorder st \<subseteq>\<^sub>m preorder st2" "assigned st \<subseteq> assigned st2" "count st \<le> count st2"
    "\<forall>v k. preorder st v = None \<and> preorder st2 v = Some k \<longrightarrow> count st \<le> k"
    "preorder st2 node = Some (count st)"
    "suffix (node # S st) (S st2)" "suffix (P st2) (node # P st)"
proof -
  have le: "preorder (pushed node st) \<subseteq>\<^sub>m preorder st2"
    using assms(2) by (simp add: extends_def)
  have "preorder st \<subseteq>\<^sub>m preorder (pushed node st)"
    using assms(1) by (auto simp: pushed_def map_le_def)
  then show "preorder st \<subseteq>\<^sub>m preorder st2" using le by (rule map_le_trans)
  show n: "preorder st2 node = Some (count st)"
    using le by (auto simp: map_le_def pushed_def dom_def split: if_splits)
  show "assigned st \<subseteq> assigned st2" "count st \<le> count st2"
    "suffix (node # S st) (S st2)" "suffix (P st2) (node # P st)"
    using assms(2) by (auto simp: extends_def pushed_def)
  show "\<forall>v k. preorder st v = None \<and> preorder st2 v = Some k \<longrightarrow> count st \<le> k"
  proof (intro allI impI)
    fix v k assume a: "preorder st v = None \<and> preorder st2 v = Some k"
    show "count st \<le> k"
    proof (cases "v = node")
      case True
      with a n show ?thesis by simp
    next
      case False
      with a have "preorder (pushed node st) v = None" by (simp add: pushed_def)
      with a assms(2) have "count (pushed node st) \<le> k" unfolding extends_def by blast
      then show ?thesis by (simp add: pushed_def)
    qed
  qed
qed

lemma finish_ok:
  assumes inv: "scc_inv g st" and none: "preorder st node = None"
    and inv2: "scc_inv g st2" and ext: "extends (pushed node st) st2"
  shows "\<exists>st3. finish node st2 = Some st3 \<and> scc_inv g st3 \<and> extends st st3"
proof -
  note e = extends_pushed[OF none ext]
  obtain ys where ys: "S st2 = ys @ node # S st"
    using e(6) by (auto simp: suffix_def)
  have d: "distinct (S st2)" using inv2 by (simp add: scc_inv_def)
  with ys have nys: "node \<notin> set ys" by auto
  have root2: "rooted r c st2" if "rooted r c st" for r c
    using pushed_rooted[OF inv that none] ext unfolding extends_def by blast
  show ?thesis
  proof (cases "case P st2 of [] \<Rightarrow> False | p # _ \<Rightarrow> preorder st2 p = preorder st2 node")
    case False
    then have fin: "finish node st2 = Some st2" by (simp add: finish_def)
    have "P st2 \<noteq> node # P st" using False by auto
    with e(7) have "suffix (P st2) (P st)" by (auto simp: suffix_Cons)
    moreover have "suffix (S st) (S st2)" using ys by (auto simp: suffix_def)
    ultimately have "extends st st2"
      unfolding extends_def using e root2 by blast
    with fin inv2 show ?thesis by blast
  next
    case True
    then obtain p ps where P2: "P st2 = p # ps" and pp: "preorder st2 p = Some (count st)"
      using e(5) by (auto split: list.splits)
    let ?st3 = "st2\<lparr>S := S st, assigned := assigned st2 \<union> set ys \<union> {node},
                   components := components st2 @ [ys @ [node]], P := tl (P st2)\<rparr>"
    have "pop_component node (S st2) [] (assigned st2)
            = Some (S st, [] @ ys @ [node], assigned st2 \<union> set ys \<union> {node})"
      unfolding ys using nys by (rule pop_component_split)
    with True have fin: "finish node st2 = Some ?st3" by (simp add: finish_def)
    have inv3: "scc_inv g ?st3" using inv2 ys by (rule emitted_inv)
    have "suffix (tl (P st2)) (P st)"
      using e(7) P2 by (auto simp: suffix_Cons dest: suffix_ConsD)
    moreover have "rooted r c ?st3" if "rooted r c st" for r c
    proof -
      from root2[OF that] have r2: "rooted r c st2" .
      have "c < count st" using that inv by (auto simp: rooted_def scc_inv_def)
      with r2 pp P2 have "ps \<noteq> []" by (auto simp: rooted_def)
      with r2 P2 show ?thesis by (auto simp: rooted_def)
    qed
    ultimately have "extends st ?st3"
      unfolding extends_def using e by auto
    with fin inv3 show ?thesis by blast
  qed
qed

lemma outboundNeighbors_nodes:
  "well_formed g \<Longrightarrow> set (outboundNeighbors g v) \<subseteq> set (nodes g)"
  by (auto simp: well_formed_def outboundNeighbors_def out_neighbors_def undirected_neighbors_def)

lemma unvisited_pos:
  "node \<in> set (nodes g) \<Longrightarrow> preorder st node = None \<Longrightarrow> 0 < unvisited g st"
  unfolding unvisited_def by (auto simp: card_gt_0_iff dom_def)

lemma popped_extends:
  assumes "preorder st neighbor = Some k"
  shows "extends st (if neighbor \<notin> assigned st then st\<lparr>P := pop_while (preorder st) k (P st)\<rparr> else st)"
proof (cases "neighbor \<in> assigned st")
  case True
  then show ?thesis by (simp add: extends_refl)
next
  case False
  have "rooted r c (st\<lparr>P := pop_while (preorder st) k (P st)\<rparr>)" if "rooted r c st" for r c
  proof -
    have "c \<le> k" using that assms False by (auto simp: rooted_def)
    with that pop_while_last[of "P st" "preorder st" c k] show ?thesis
      by (auto simp: rooted_def)
  qed
  with False show ?thesis
    by (auto simp: extends_def pop_while_suffix)
qed

lemma popped_inv:
  "scc_inv g st \<Longrightarrow> scc_inv g (if b then st\<lparr>P := ps\<rparr> else st)"
  by (simp add: scc_inv_def)

lemma DFS_returns:
  "well_formed g \<Longrightarrow> scc_inv g st \<Longrightarrow> node \<in> set (nodes g) \<Longrightarrow> preorder st node = None \<Longrightarrow>
   unvisited g st \<le> depth \<Longrightarrow>
   \<exists>st'. DFS depth g node st = Some st' \<and> scc_inv g st' \<and> extends st st'"
  and DFS_neighbors_returns:
  "well_formed g \<Longrightarrow> scc_inv g st \<Longrightarrow> set ns \<subseteq> set (nodes g) \<Longrightarrow>
   unvisited g st \<le> depth \<Longrightarrow>
   \<exists>st'. DFS_neighbors depth g ns st = Some st' \<and> scc_inv g st' \<and> extends st st'"
proof (induction depth g node st and depth g ns st rule: DFS_DFS_neighbors.induct)
  case (1 g node st)
  with unvisited_pos[of node g st] show ?case by simp
next
  case (2 depth g node st)
  have inv1: "scc_inv g (pushed node st)"
    using "2.prems" by (intro pushed_inv)
  have "unvisited g (pushed node st) \<le> depth"
    using pushed_unvisited[of node g st] "2.prems" by simp
  with "2.IH"[folded pushed_def, OF "2.prems"(1) inv1 outboundNeighbors_nodes[OF "2.prems"(1)]]
  obtain st2 where st2: "DFS_neighbors depth g (outboundNeighbors g node) (pushed node st) = Some st2"
    "scc_inv g st2" "extends (pushed node st) st2"
    by blast
  from finish_ok[OF "2.prems"(2) "2.prems"(4) st2(2) st2(3)]
  show ?case unfolding DFS_Suc st2(1) by simp
next
  case (3 depth g st)
  then show ?case by (simp add: extends_refl)
next
  case (4 depth g neighbor rest st)
  show ?case
  proof (cases "preorder st neighbor")
    case (Some k)
    let ?st1 = "if neighbor \<notin> assigned st then st\<lparr>P := pop_while (preorder st) k (P st)\<rparr> else st"
    have e1: "extends st ?st1" using Some by (rule popped_extends)
    have i1: "scc_inv g ?st1" using "4.prems"(2) by (rule popped_inv)
    have "unvisited g ?st1 \<le> depth"
      using unvisited_mono[OF e1, of g] "4.prems"(4) by simp
    with "4.IH"(3)[OF Some "4.prems"(1) i1] "4.prems"(3)
    obtain st' where st': "DFS_neighbors depth g rest ?st1 = Some st'" "scc_inv g st'" "extends ?st1 st'"
      by auto
    from e1 st'(3) have "extends st st'" by (rule extends_trans)
    with st' Some show ?thesis by simp
  next
    case None
    from "4.IH"(1)[OF None "4.prems"(1,2) _ None "4.prems"(4)] "4.prems"(3)
    obtain st1 where st1: "DFS depth g neighbor st = Some st1" "scc_inv g st1" "extends st st1"
      by auto
    have "unvisited g st1 \<le> depth"
      using unvisited_mono[OF st1(3), of g] "4.prems"(4) by simp
    with "4.IH"(2)[OF None st1(1) "4.prems"(1) st1(2)] "4.prems"(3)
    obtain st' where st': "DFS_neighbors depth g rest st1 = Some st'" "scc_inv g st'" "extends st1 st'"
      by auto
    from st1(3) st'(3) have "extends st st'" by (rule extends_trans)
    with st' st1 None show ?thesis by simp
  qed
qed

lemma DFS_root:
  assumes wf: "well_formed g" and inv: "scc_inv g st" and empty: "S st = []" "P st = []"
    and vertex: "vertex \<in> set (nodes g)" "vertex \<notin> assigned st"
    and depth: "unvisited g st \<le> depth"
  shows "\<exists>st'. DFS depth g vertex st = Some st' \<and> scc_inv g st' \<and> S st' = [] \<and> P st' = [] \<and>
           vertex \<in> assigned st' \<and> assigned st \<subseteq> assigned st' \<and> unvisited g st' \<le> unvisited g st"
proof -
  have all_assigned: "dom (preorder st) = assigned st"
    using inv empty(1) by (auto simp: scc_inv_def)
  with vertex(2) have none: "preorder st vertex = None" by (auto simp: dom_def)
  from unvisited_pos[OF vertex(1) none] depth obtain d where d: "depth = Suc d"
    by (cases depth) auto
  have inv1: "scc_inv g (pushed vertex st)"
    using inv vertex(1) none by (rule pushed_inv)
  have "unvisited g (pushed vertex st) \<le> d"
    using pushed_unvisited[OF vertex(1) none] depth d by simp
  from DFS_neighbors_returns[OF wf inv1 outboundNeighbors_nodes[OF wf] this]
  obtain st2 where st2: "DFS_neighbors d g (outboundNeighbors g vertex) (pushed vertex st) = Some st2"
    "scc_inv g st2" "extends (pushed vertex st) st2"
    by blast
  have "rooted vertex (count st) (pushed vertex st)"
    using all_assigned empty(2) by (auto simp: rooted_def pushed_def dom_def split: if_splits)
  with st2(3) have "rooted vertex (count st) st2" unfolding extends_def by blast
  moreover have "suffix (P st2) [vertex]" "suffix [vertex] (S st2)"
    using st2(3) empty by (auto simp: extends_def pushed_def)
  ultimately have P2: "P st2 = [vertex]" and "\<exists>ys. S st2 = ys @ [vertex]"
    by (auto simp: rooted_def suffix_Cons) (auto simp: suffix_def)
  then obtain ys where ys: "S st2 = ys @ [vertex]" by blast
  have "distinct (S st2)" using st2(2) by (simp add: scc_inv_def)
  with ys have "vertex \<notin> set ys" by auto
  then have "pop_component vertex (S st2) [] (assigned st2)
            = Some ([], [] @ ys @ [vertex], assigned st2 \<union> set ys \<union> {vertex})"
    unfolding ys by (rule pop_component_split)
  then have fin: "finish vertex st2 =
      Some (st2\<lparr>S := [], assigned := assigned st2 \<union> set ys \<union> {vertex},
                components := components st2 @ [ys @ [vertex]], P := []\<rparr>)"
    (is "_ = Some ?st3")
    using P2 by (simp add: finish_def)
  from finish_ok[OF inv none st2(2,3)] fin
  have inv3: "scc_inv g ?st3" and ext: "extends st ?st3" by auto
  have "DFS depth g vertex st = Some ?st3"
    unfolding d DFS_Suc st2(1) using fin by simp
  moreover have "assigned st \<subseteq> assigned ?st3" using ext by (simp add: extends_def)
  moreover have "unvisited g ?st3 \<le> unvisited g st" using ext by (rule unvisited_mono)
  ultimately show ?thesis using inv3 by (intro exI[of _ ?st3]) simp
qed

lemma stronglyConnectedComponents_nodes_returns:
  "well_formed g \<Longrightarrow> scc_inv g st \<Longrightarrow> S st = [] \<Longrightarrow> P st = [] \<Longrightarrow> set vs \<subseteq> set (nodes g) \<Longrightarrow>
   unvisited g st \<le> depth \<Longrightarrow>
   \<exists>st'. stronglyConnectedComponents_nodes depth g vs st = Some st' \<and> scc_inv g st' \<and>
         set vs \<union> assigned st \<subseteq> assigned st'"
proof (induction vs arbitrary: st)
  case Nil
  then show ?case by simp
next
  case (Cons vertex rest)
  show ?case
  proof (cases "vertex \<in> assigned st")
    case True
    with Cons.IH[OF Cons.prems(1-4)] Cons.prems(5,6) show ?thesis by auto
  next
    case False
    from DFS_root[OF Cons.prems(1-4) _ False Cons.prems(6)] Cons.prems(5)
    obtain st1 where st1: "DFS depth g vertex st = Some st1" "scc_inv g st1" "S st1 = []" "P st1 = []"
      "vertex \<in> assigned st1" "assigned st \<subseteq> assigned st1" "unvisited g st1 \<le> unvisited g st"
      by auto
    from Cons.IH[OF Cons.prems(1) st1(2-4)] Cons.prems(5,6) st1(7)
    obtain st' where "stronglyConnectedComponents_nodes depth g rest st1 = Some st'" "scc_inv g st'"
      "set rest \<union> assigned st1 \<subseteq> assigned st'"
      by auto
    with st1 False show ?thesis by auto
  qed
qed

lemma initial_state_inv: "scc_inv g initial_state"
  by (simp add: scc_inv_def initial_state_def)

lemma stronglyConnectedComponents_partition:
  assumes "well_formed g" "type g \<noteq> Undirected" "order g \<le> depth"
  shows "\<exists>components. stronglyConnectedComponents depth g = Some (Inr components) \<and>
           distinct (concat components) \<and> set (concat components) = set (nodes g) \<and>
           [] \<notin> set components"
proof -
  have d: "distinct (nodes g)" using assms(1) by (simp add: well_formed_def)
  consider "order g = 0" | "order g \<noteq> 0" "size_g g = 0" | "order g \<noteq> 0" "size_g g \<noteq> 0"
    by blast
  then show ?thesis
  proof cases
    case 1
    then show ?thesis by (simp add: stronglyConnectedComponents_def order_def nodes_def)
  next
    case 2
    have "concat (map (\<lambda>node. [node]) (nodes g)) = nodes g"
      by (induction "nodes g") auto
    with 2 assms(2) d show ?thesis by (auto simp: stronglyConnectedComponents_def)
  next
    case 3
    have "card (set (nodes g)) = length (nodes g)"
      using d by (rule distinct_card)
    then have "unvisited g initial_state = order g"
      by (simp add: unvisited_def initial_state_def order_def nodes_def)
    with assms(3) have "unvisited g initial_state \<le> depth" by simp
    from stronglyConnectedComponents_nodes_returns[OF assms(1) initial_state_inv _ _ _ this, of "nodes g"]
    obtain st' where st': "stronglyConnectedComponents_nodes depth g (nodes g) initial_state = Some st'"
      "scc_inv g st'" "set (nodes g) \<subseteq> assigned st'"
      by (auto simp: initial_state_def)
    from st'(2,3) have "set (concat (components st')) = set (nodes g)"
      "distinct (concat (components st'))" "[] \<notin> set (components st')"
      by (auto simp: scc_inv_def)
    with 3 assms(2) st'(1) show ?thesis by (simp add: stronglyConnectedComponents_def)
  qed
qed

lemma DFS_depth_mono:
  "\<forall>st' depth'. DFS depth g node st = Some st' \<longrightarrow> depth \<le> depth' \<longrightarrow> DFS depth' g node st = Some st'"
  and DFS_neighbors_depth_mono:
  "\<forall>st' depth'. DFS_neighbors depth g ns st = Some st' \<longrightarrow> depth \<le> depth' \<longrightarrow>
     DFS_neighbors depth' g ns st = Some st'"
proof (induction depth g node st and depth g ns st rule: DFS_DFS_neighbors.induct)
  case (1 g node st)
  show ?case by simp
next
  case (2 depth g node st)
  show ?case
  proof (intro allI impI)
    fix st' depth'
    assume run: "DFS (Suc depth) g node st = Some st'" and le: "Suc depth \<le> depth'"
    from le obtain d' where d': "depth' = Suc d'" "depth \<le> d'" by (cases depth') auto
    from run obtain st2 where
      st2: "DFS_neighbors depth g (outboundNeighbors g node) (pushed node st) = Some st2"
      and fin: "finish node st2 = Some st'"
      unfolding DFS_Suc by (auto split: option.splits)
    from "2.IH"[folded pushed_def] st2 d'(2)
    have "DFS_neighbors d' g (outboundNeighbors g node) (pushed node st) = Some st2" by blast
    with fin show "DFS depth' g node st = Some st'" unfolding d'(1) DFS_Suc by simp
  qed
next
  case (3 depth g st)
  show ?case by simp
next
  case (4 depth g neighbor rest st)
  show ?case
  proof (cases "preorder st neighbor")
    case None
    show ?thesis
    proof (intro allI impI)
      fix st' depth'
      assume run: "DFS_neighbors depth g (neighbor # rest) st = Some st'" and le: "depth \<le> depth'"
      from run None obtain st1 where st1: "DFS depth g neighbor st = Some st1"
        "DFS_neighbors depth g rest st1 = Some st'"
        by (auto split: option.splits)
      from "4.IH"(1)[OF None] st1(1) le have "DFS depth' g neighbor st = Some st1" by blast
      moreover from "4.IH"(2)[OF None st1(1)] st1(2) le
      have "DFS_neighbors depth' g rest st1 = Some st'" by blast
      ultimately show "DFS_neighbors depth' g (neighbor # rest) st = Some st'"
        using None by simp
    qed
  next
    case (Some k)
    show ?thesis
    proof (intro allI impI)
      fix st' depth'
      assume run: "DFS_neighbors depth g (neighbor # rest) st = Some st'" and le: "depth \<le> depth'"
      let ?st1 = "if neighbor \<notin> assigned st then st\<lparr>P := pop_while (preorder st) k (P st)\<rparr> else st"
      have step: "DFS_neighbors d g (neighbor # rest) st = DFS_neighbors d g rest ?st1" for d
        by (simp only: DFS_neighbors.simps Some option.case)
      from run have "DFS_neighbors depth g rest ?st1 = Some st'" by (simp only: step)
      with "4.IH"(3)[OF Some] le have "DFS_neighbors depth' g rest ?st1 = Some st'" by blast
      then show "DFS_neighbors depth' g (neighbor # rest) st = Some st'" by (simp only: step)
    qed
  qed
qed

lemma stronglyConnectedComponents_nodes_depth_mono:
  "stronglyConnectedComponents_nodes depth g vs st = Some st' \<Longrightarrow> depth \<le> depth' \<Longrightarrow>
   stronglyConnectedComponents_nodes depth' g vs st = Some st'"
proof (induction vs arbitrary: st)
  case Nil
  then show ?case by simp
next
  case (Cons vertex rest)
  show ?case
  proof (cases "vertex \<in> assigned st")
    case True
    with Cons show ?thesis by simp
  next
    case False
    with Cons.prems(1) obtain st1 where st1: "DFS depth g vertex st = Some st1"
      "stronglyConnectedComponents_nodes depth g rest st1 = Some st'"
      by (auto split: option.splits)
    from DFS_depth_mono[of depth g vertex st] st1(1) Cons.prems(2)
    have "DFS depth' g vertex st = Some st1" by blast
    with Cons.IH[OF st1(2) Cons.prems(2)] False show ?thesis by simp
  qed
qed

lemma stronglyConnectedComponents_depth_mono:
  assumes "stronglyConnectedComponents depth g = Some r" "depth \<le> depth'"
  shows "stronglyConnectedComponents depth' g = Some r"
proof (cases "order g = 0 \<or> type g = Undirected \<or> size_g g = 0")
  case True
  with assms(1) show ?thesis by (auto simp: stronglyConnectedComponents_def)
next
  case False
  with assms(1) obtain st where
    st: "stronglyConnectedComponents_nodes depth g (nodes g) initial_state = Some st"
    and r: "r = Inr (components st)"
    by (auto simp: stronglyConnectedComponents_def split: option.splits)
  from stronglyConnectedComponents_nodes_depth_mono[OF st assms(2)] False r
  show ?thesis by (simp add: stronglyConnectedComponents_def)
qed

subsection \<open>Reachability in the example graphs\<close>

lemma reaches_step:
  "v \<in> set (outboundNeighbors g u) \<Longrightarrow> reaches g v w \<Longrightarrow> reaches g u w"
  unfolding reaches_def by (rule converse_rtrancl_into_rtrancl) simp_all

lemma reaches_refl: "reaches g u u"
  by (simp add: reaches_def)

lemma reaches_monotone:
  assumes "\<And>a b. b \<in> set (outboundNeighbors g a) \<Longrightarrow> rank a \<le> (rank b :: nat)"
    and "reaches g u v"
  shows "rank u \<le> rank v"
  using assms(2) unfolding reaches_def
proof (induction rule: rtrancl_induct)
  case base
  show ?case by simp
next
  case (step y z)
  then have "rank y \<le> rank z" using assms(1) by simp
  with step show ?case by simp
qed

lemma set_outboundNeighbors:
  "set (outboundNeighbors g v) =
     {w. \<exists>e \<in> set (edge_entries g).
           (source e = v \<and> target e = w) \<or> (undirected e \<and> target e = v \<and> source e = w)}"
  by (auto simp: outboundNeighbors_def out_neighbors_def undirected_neighbors_def)

lemma cycle_out:
  "outboundNeighbors directed_cycle ''A'' = [''B'']"
  "outboundNeighbors directed_cycle ''B'' = [''C'']"
  "outboundNeighbors directed_cycle ''C'' = [''A'']"
  by code_simp+

lemma cycle_mutually_reachable:
  assumes "u \<in> set (nodes directed_cycle)" "v \<in> set (nodes directed_cycle)"
  shows "mutually_reachable directed_cycle u v"
proof -
  have ab: "reaches directed_cycle ''A'' ''B''" and bc: "reaches directed_cycle ''B'' ''C''"
    and ca: "reaches directed_cycle ''C'' ''A''"
    by (rule reaches_step[OF _ reaches_refl], simp add: cycle_out)+
  have ac: "reaches directed_cycle ''A'' ''C''" and ba: "reaches directed_cycle ''B'' ''A''"
    and cb: "reaches directed_cycle ''C'' ''B''"
    by (rule reaches_step[OF _ bc], simp add: cycle_out)
       (rule reaches_step[OF _ ca], simp add: cycle_out,
        rule reaches_step[OF _ ab], simp add: cycle_out)
  have "nodes directed_cycle = [''A'', ''B'', ''C'']" by code_simp
  with assms ab bc ca ac ba cb reaches_refl[of directed_cycle] show ?thesis
    unfolding mutually_reachable_def by auto
qed

lemma path_mutually_reachable:
  assumes "u \<in> set (nodes directed_path)" "v \<in> set (nodes directed_path)"
  shows "mutually_reachable directed_path u v \<longleftrightarrow> u = v"
proof
  assume "u = v"
  then show "mutually_reachable directed_path u v"
    by (simp add: mutually_reachable_def reaches_refl)
next
  assume m: "mutually_reachable directed_path u v"
  have up: "path_rank a \<le> path_rank b" if "b \<in> set (outboundNeighbors directed_path a)" for a b
    using that by (auto simp: set_outboundNeighbors directed_path_def path_rank_def)
  from m have "path_rank u \<le> path_rank v" "path_rank v \<le> path_rank u"
    unfolding mutually_reachable_def by (auto intro: reaches_monotone[OF up])
  moreover have "nodes directed_path = [''A'', ''B'', ''C'']" by code_simp
  ultimately show "u = v" using assms by (auto simp: path_rank_def split: if_splits)
qed

subsection \<open>The strong components are the classes of mutual reachability\<close>

lemma number_Some: "preorder st x = Some k \<Longrightarrow> number st x = k"
  by (simp add: number_def)

lemma number_on_S:
  assumes "scc_inv g st" "x \<in> set (S st)"
  shows "preorder st x = Some (number st x)" "number st x < count st" "x \<notin> assigned st"
  using assms by (auto simp: scc_inv_def number_def)

lemma number_extends:
  assumes "extends st st'" "x \<in> dom (preorder st)"
  shows "number st' x = number st x"
proof -
  from assms(2) obtain k where k: "preorder st x = Some k" by auto
  with assms(1) have "preorder st' x = Some k" by (auto simp: extends_def map_le_def dom_def)
  with k show ?thesis by (simp add: number_def)
qed

lemma number_pushed:
  "number (pushed node st) node = count st"
  "x \<noteq> node \<Longrightarrow> number (pushed node st) x = number st x"
  by (simp_all add: number_def pushed_def)

lemma reaches_trans: "reaches g u v \<Longrightarrow> reaches g v w \<Longrightarrow> reaches g u w"
  unfolding reaches_def by (rule rtrancl_trans)

lemma reaches_edge: "w \<in> set (outboundNeighbors g v) \<Longrightarrow> reaches g v w"
  unfolding reaches_def by (rule r_into_rtrancl) simp

lemma reaches_closed:
  assumes "\<forall>x \<in> A. set (outboundNeighbors g x) \<subseteq> A" "reaches g u v" "u \<in> A"
  shows "v \<in> A"
  using assms(2,3) unfolding reaches_def
proof (induction rule: rtrancl_induct)
  case base
  then show ?case by simp
next
  case (step y z)
  with assms(1) show ?case by auto
qed

lemma pop_while_filter:
  "sorted_wrt (\<lambda>a b. f b < f a) ps \<Longrightarrow> \<forall>p \<in> set ps. pre p = Some (f p) \<Longrightarrow>
   pop_while pre k ps = filter (\<lambda>p. f p \<le> (k :: nat)) ps"
proof (induction ps)
  case Nil
  show ?case by simp
next
  case (Cons p ps)
  show ?case
  proof (cases "f p > k")
    case True
    with Cons show ?thesis by simp
  next
    case False
    with Cons.prems have "\<forall>q \<in> set ps. f q \<le> k" by auto
    then have "filter (\<lambda>p. f p \<le> k) ps = ps" by (simp add: filter_id_conv)
    with False Cons.prems show ?thesis by simp
  qed
qed

lemma conn_invD:
  assumes "conn_inv g G st"
  shows "sorted_wrt (\<lambda>a b. number st b < number st a) (S st)"
    and "sorted_wrt (\<lambda>a b. number st b < number st a) (P st)"
    and "set (P st) \<subseteq> set (S st)"
    and "G \<subseteq> set (S st)"
    and "\<And>x. x \<in> assigned st \<Longrightarrow> set (outboundNeighbors g x) \<subseteq> assigned st"
    and "\<And>x w. x \<in> set (S st) \<Longrightarrow> x \<notin> G \<Longrightarrow> w \<in> set (outboundNeighbors g x) \<Longrightarrow> edge_ok st x w"
    and "\<And>s p. s \<in> set (S st) \<Longrightarrow> p \<in> set (P st) \<Longrightarrow> number st p \<le> number st s \<Longrightarrow> reaches g p s"
    and "\<And>s. s \<in> set (S st) \<Longrightarrow> \<exists>p \<in> set (P st). number st p \<le> number st s \<and> reaches g s p"
    and "\<And>c u v. c \<in> set (components st) \<Longrightarrow> u \<in> set c \<Longrightarrow> v \<in> set c \<Longrightarrow> reaches g u v"
    and "\<And>c u v. c \<in> set (components st) \<Longrightarrow> u \<in> set c \<Longrightarrow> mutually_reachable g u v \<Longrightarrow> v \<in> set c"
  using assms unfolding conn_inv_def by blast+

lemma conn_invI:
  assumes "sorted_wrt (\<lambda>a b. number st b < number st a) (S st)"
    and "sorted_wrt (\<lambda>a b. number st b < number st a) (P st)"
    and "set (P st) \<subseteq> set (S st)"
    and "G \<subseteq> set (S st)"
    and "\<And>x. x \<in> assigned st \<Longrightarrow> set (outboundNeighbors g x) \<subseteq> assigned st"
    and "\<And>x w. x \<in> set (S st) \<Longrightarrow> x \<notin> G \<Longrightarrow> w \<in> set (outboundNeighbors g x) \<Longrightarrow> edge_ok st x w"
    and "\<And>s p. s \<in> set (S st) \<Longrightarrow> p \<in> set (P st) \<Longrightarrow> number st p \<le> number st s \<Longrightarrow> reaches g p s"
    and "\<And>s. s \<in> set (S st) \<Longrightarrow> \<exists>p \<in> set (P st). number st p \<le> number st s \<and> reaches g s p"
    and "\<And>c u v. c \<in> set (components st) \<Longrightarrow> u \<in> set c \<Longrightarrow> v \<in> set c \<Longrightarrow> reaches g u v"
    and "\<And>c u v. c \<in> set (components st) \<Longrightarrow> u \<in> set c \<Longrightarrow> mutually_reachable g u v \<Longrightarrow> v \<in> set c"
  shows "conn_inv g G st"
  unfolding conn_inv_def using assms by blast

lemma pushed_conn:
  assumes inv: "scc_inv g st" and conn: "conn_inv g G st" and none: "preorder st node = None"
    and reach: "\<forall>p \<in> set (P st). reaches g p node"
  shows "conn_inv g (insert node G) (pushed node st)"
proof -
  let ?st = "pushed node st"
  note c = conn_invD[OF conn]
  have fields: "S ?st = node # S st" "P ?st = node # P st" "assigned ?st = assigned st"
    "components ?st = components st"
    by (simp_all add: pushed_def)
  have old: "x \<noteq> node \<and> number ?st x = number st x \<and> number st x < count st"
    if "x \<in> set (S st)" for x
  proof -
    from number_on_S[OF inv that] none have "x \<noteq> node" "number st x < count st" by auto
    then show ?thesis by (simp add: number_pushed)
  qed
  have new: "number ?st node = count st" by (rule number_pushed)
  have oldP: "x \<noteq> node \<and> number ?st x = number st x \<and> number st x < count st"
    if "x \<in> set (P st)" for x
    using old that c(3) by blast
  show ?thesis
  proof (rule conn_invI)
    have "sorted_wrt (\<lambda>a b. number ?st b < number ?st a) (S st)"
      using c(1) by (rule sorted_wrt_mono_rel[rotated]) (use old in auto)
    then show "sorted_wrt (\<lambda>a b. number ?st b < number ?st a) (S ?st)"
      using old new by (simp add: fields)
    have "sorted_wrt (\<lambda>a b. number ?st b < number ?st a) (P st)"
      using c(2) by (rule sorted_wrt_mono_rel[rotated]) (use oldP in auto)
    then show "sorted_wrt (\<lambda>a b. number ?st b < number ?st a) (P ?st)"
      using oldP new by (simp add: fields)
    show "set (P ?st) \<subseteq> set (S ?st)" using c(3) by (auto simp: fields)
    show "insert node G \<subseteq> set (S ?st)" using c(4) by (auto simp: fields)
  next
    fix x assume "x \<in> assigned ?st"
    then show "set (outboundNeighbors g x) \<subseteq> assigned ?st" using c(5) by (simp add: fields)
  next
    fix x w assume x: "x \<in> set (S ?st)" "x \<notin> insert node G" and w: "w \<in> set (outboundNeighbors g x)"
    then have xS: "x \<in> set (S st)" "x \<notin> G" by (auto simp: fields)
    from c(6)[OF xS w] have ok: "edge_ok st x w" .
    then obtain k where k: "preorder st w = Some k" by (auto simp: edge_ok_def)
    with none have wn: "w \<noteq> node" by auto
    from wn have nw1: "number ?st w = number st w" by (rule number_pushed)
    from k have nw2: "w \<in> dom (preorder ?st)" by (auto simp: pushed_def)
    note nw = nw1 nw2
    show "edge_ok ?st x w"
      unfolding edge_ok_def
    proof (intro conjI nw(2), cases "w \<in> assigned st")
      case True
      then show "w \<in> assigned ?st \<or> (\<forall>p\<in>set (P ?st). number ?st p \<le> number ?st x \<longrightarrow> number ?st p \<le> number ?st w)"
        by (simp add: fields)
    next
      case False
      with ok have all: "\<forall>p \<in> set (P st). number st p \<le> number st x \<longrightarrow> number st p \<le> number st w"
        by (auto simp: edge_ok_def)
      have "number ?st p \<le> number ?st x \<longrightarrow> number ?st p \<le> number ?st w" if "p \<in> set (P ?st)" for p
      proof (cases "p = node")
        case True
        with old[OF xS(1)] new show ?thesis by simp
      next
        case False
        with that have "p \<in> set (P st)" by (simp add: fields)
        with all oldP[OF this] old[OF xS(1)] nw(1) show ?thesis by simp
      qed
      then show "w \<in> assigned ?st \<or> (\<forall>p\<in>set (P ?st). number ?st p \<le> number ?st x \<longrightarrow> number ?st p \<le> number ?st w)"
        by blast
    qed
  next
    fix s p assume s: "s \<in> set (S ?st)" and p: "p \<in> set (P ?st)"
      and le: "number ?st p \<le> number ?st s"
    show "reaches g p s"
    proof (cases "s = node")
      case True
      with p reach show ?thesis by (auto simp: fields reaches_refl)
    next
      case False
      with s have sS: "s \<in> set (S st)" by (simp add: fields)
      have "p \<noteq> node" using le old[OF sS] new by auto
      with p have pP: "p \<in> set (P st)" by (simp add: fields)
      with le old[OF sS] oldP[OF pP] c(7)[OF sS pP] show ?thesis by simp
    qed
  next
    fix s assume s: "s \<in> set (S ?st)"
    show "\<exists>p \<in> set (P ?st). number ?st p \<le> number ?st s \<and> reaches g s p"
    proof (cases "s = node")
      case True
      then show ?thesis by (auto simp: fields reaches_refl)
    next
      case False
      with s have sS: "s \<in> set (S st)" by (simp add: fields)
      from c(8)[OF sS] obtain p where p: "p \<in> set (P st)" "number st p \<le> number st s" "reaches g s p"
        by blast
      with old[OF sS] oldP[OF p(1)] show ?thesis by (auto simp: fields)
    qed
  next
    fix c' u v assume "c' \<in> set (components ?st)" "u \<in> set c'" "v \<in> set c'"
    then show "reaches g u v" using c(9) by (simp add: fields)
  next
    fix c' u v assume "c' \<in> set (components ?st)" "u \<in> set c'" "mutually_reachable g u v"
    then show "v \<in> set c'" using c(10) by (simp add: fields)
  qed
qed

lemma number_P_update: "number (st\<lparr>P := ps\<rparr>) = number st"
  by (simp add: number_def fun_eq_iff)

lemma popped_conn:
  assumes inv: "scc_inv g st" and conn: "conn_inv g G st" and v: "v \<in> G"
    and top: "\<forall>p \<in> set (P st). number st p \<le> number st v"
    and w: "w \<in> set (outboundNeighbors g v)" and k: "preorder st w = Some k"
    and un: "w \<notin> assigned st"
  shows "conn_inv g G (st\<lparr>P := pop_while (preorder st) k (P st)\<rparr>)"
    and "edge_ok (st\<lparr>P := pop_while (preorder st) k (P st)\<rparr>) v w"
proof -
  let ?st = "st\<lparr>P := pop_while (preorder st) k (P st)\<rparr>"
  note c = conn_invD[OF conn]
  have "\<forall>p \<in> set (P st). preorder st p = Some (number st p)"
    using c(3) number_on_S(1)[OF inv] by blast
  with c(2) have P': "P ?st = filter (\<lambda>p. number st p \<le> k) (P st)"
    by (simp add: pop_while_filter)
  have nk: "number st w = k" using k by (rule number_Some)
  have wS: "w \<in> set (S st)" using inv k un by (auto simp: scc_inv_def)
  have vS: "v \<in> set (S st)" using v c(4) by blast
  show "edge_ok ?st v w"
    unfolding edge_ok_def number_P_update P' using k nk by auto
  show "conn_inv g G ?st"
  proof (rule conn_invI; (unfold number_P_update)?)
    show "sorted_wrt (\<lambda>a b. number st b < number st a) (S ?st)" using c(1) by simp
    show "sorted_wrt (\<lambda>a b. number st b < number st a) (P ?st)"
      unfolding P' using c(2) by (rule sorted_wrt_filter)
    show "set (P ?st) \<subseteq> set (S ?st)" unfolding P' using c(3) by auto
    show "G \<subseteq> set (S ?st)" using c(4) by simp
  next
    fix x assume "x \<in> assigned ?st"
    then show "set (outboundNeighbors g x) \<subseteq> assigned ?st" using c(5) by simp
  next
    fix x w' assume "x \<in> set (S ?st)" "x \<notin> G" "w' \<in> set (outboundNeighbors g x)"
    then have "edge_ok st x w'" using c(6) by simp
    then show "edge_ok ?st x w'"
      unfolding edge_ok_def number_P_update P' by auto
  next
    fix s p assume "s \<in> set (S ?st)" "p \<in> set (P ?st)" "number st p \<le> number st s"
    then show "reaches g p s" using c(7)[of s p] by (simp add: P')
  next
    fix s assume "s \<in> set (S ?st)"
    then have sS: "s \<in> set (S st)" by simp
    from c(8)[OF sS] obtain p where p: "p \<in> set (P st)" "number st p \<le> number st s" "reaches g s p"
      by blast
    show "\<exists>p \<in> set (P ?st). number st p \<le> number st s \<and> reaches g s p"
    proof (cases "number st p \<le> k")
      case True
      with p show ?thesis by (auto simp: P')
    next
      case False
      from c(8)[OF wS] obtain q where q: "q \<in> set (P st)" "number st q \<le> number st w" "reaches g w q"
        by blast
      have "reaches g p v" using c(7)[OF vS p(1)] top p(1) by blast
      with p(3) have "reaches g s v" by (rule reaches_trans)
      then have "reaches g s w" using reaches_edge[OF w] by (rule reaches_trans)
      then have "reaches g s q" using q(3) by (rule reaches_trans)
      moreover have "number st q \<le> number st s" using q(2) nk False p(2) by simp
      ultimately show ?thesis using q(1,2) nk by (auto simp: P')
    qed
  next
    fix c' u v' assume "c' \<in> set (components ?st)" "u \<in> set c'" "v' \<in> set c'"
    then show "reaches g u v'" using c(9) by simp
  next
    fix c' u v' assume "c' \<in> set (components ?st)" "u \<in> set c'" "mutually_reachable g u v'"
    then show "v' \<in> set c'" using c(10) by simp
  qed
qed

lemma sorted_wrt_inj:
  "sorted_wrt (\<lambda>a b. f b < (f a :: nat)) xs \<Longrightarrow> x \<in> set xs \<Longrightarrow> y \<in> set xs \<Longrightarrow> f x = f y \<Longrightarrow> x = y"
  by (induction xs) auto

lemma number_preorder: "preorder st' = preorder st \<Longrightarrow> number st' = number st"
  by (simp add: number_def fun_eq_iff)

lemma finish_conn:
  assumes inv: "scc_inv g st" and conn: "conn_inv g (insert node G) st"
    and below: "\<forall>x \<in> G. number st x < number st node"
    and finished: "\<forall>w \<in> set (outboundNeighbors g node). edge_ok st node w"
    and top: "\<forall>p \<in> set (P st). number st p \<le> number st node"
    and fin: "finish node st = Some st'"
  shows "conn_inv g G st'"
proof -
  note c = conn_invD[OF conn]
  have nodeS: "node \<in> set (S st)" using c(4) by simp
  have notG: "node \<notin> G" using below by auto
  have num: "preorder st x = Some (number st x)" if "x \<in> set (S st)" for x
    using number_on_S(1)[OF inv that] .
  have unassigned: "x \<notin> assigned st" if "x \<in> set (S st)" for x
    using number_on_S(3)[OF inv that] .
  have inS: "x \<in> set (S st)" if "x \<in> dom (preorder st)" "x \<notin> assigned st" for x
    using inv that by (auto simp: scc_inv_def)
  show ?thesis
  proof (cases "case P st of [] \<Rightarrow> False | p # _ \<Rightarrow> preorder st p = preorder st node")
    case False
    with fin have st': "st' = st" by (simp add: finish_def)
    show ?thesis
      unfolding st'
    proof (rule conn_invI)
      fix x w assume "x \<in> set (S st)" "x \<notin> G" "w \<in> set (outboundNeighbors g x)"
      then show "edge_ok st x w" using c(6)[of x w] finished by (cases "x = node") auto
    qed (use c in auto)
  next
    case True
    then obtain p ps where Pst: "P st = p # ps" and pp: "preorder st p = preorder st node"
      by (auto split: list.splits)
    have "p \<in> set (S st)" using c(3) Pst by auto
    with pp nodeS have "number st p = number st node" by (simp add: number_def)
    with c(1) \<open>p \<in> set (S st)\<close> nodeS have "p = node" by (rule sorted_wrt_inj)
    with Pst have P: "P st = node # ps" by simp
    from nodeS obtain ys rest where S: "S st = ys @ node # rest" and nys: "node \<notin> set ys"
      by (auto dest: split_list_first)
    let ?B = "set ys \<union> {node}"
    let ?st = "st\<lparr>S := rest, assigned := assigned st \<union> set ys \<union> {node},
                  components := components st @ [ys @ [node]], P := tl (P st)\<rparr>"
    have "pop_component node (S st) [] (assigned st)
            = Some (rest, [] @ ys @ [node], assigned st \<union> set ys \<union> {node})"
      unfolding S using nys by (rule pop_component_split)
    with True fin have st': "st' = ?st" by (simp add: finish_def)
    have n': "number ?st = number st" by (rule number_preorder) simp
    have fields: "S ?st = rest" "P ?st = ps" "assigned ?st = assigned st \<union> ?B"
      "components ?st = components st @ [ys @ [node]]" "preorder ?st = preorder st"
      by (simp_all add: P)
    have above: "number st node < number st y" if "y \<in> set ys" for y
      using c(1) that unfolding S by (auto simp: sorted_wrt_append)
    have under: "number st r < number st node" if "r \<in> set rest" for r
      using c(1) that unfolding S by (auto simp: sorted_wrt_append)
    have inB: "x \<in> ?B" if "x \<in> set (S st)" "number st node \<le> number st x" for x
      using that under[of x] unfolding S by auto
    have in_rest: "x \<in> set rest" if "x \<in> set (S st)" "number st x < number st node" for x
      using that above[of x] unfolding S by auto
    have geB: "number st node \<le> number st x" if "x \<in> ?B" for x
      using that above[of x] by auto
    have BS: "?B \<subseteq> set (S st)" unfolding S by auto
    have restS: "set rest \<subseteq> set (S st)" unfolding S by auto
    have underP: "number st q < number st node" if "q \<in> set ps" for q
      using c(2) that unfolding P by auto
    have B_edges: "w \<in> assigned st \<union> ?B" if "x \<in> ?B" "w \<in> set (outboundNeighbors g x)" for x w
    proof -
      have ok: "edge_ok st x w"
      proof (cases "x = node")
        case True
        with finished that(2) show ?thesis by simp
      next
        case False
        with that(1) have "x \<in> set ys" by simp
        with above[of x] below have "x \<notin> G" by force
        with False c(6)[of x w] that BS show ?thesis by auto
      qed
      show ?thesis
      proof (cases "w \<in> assigned st")
        case True
        then show ?thesis by simp
      next
        case False
        with ok have "w \<in> dom (preorder st)"
          "\<forall>q \<in> set (P st). number st q \<le> number st x \<longrightarrow> number st q \<le> number st w"
          by (auto simp: edge_ok_def)
        with geB[OF that(1)] P have "number st node \<le> number st w" by simp
        moreover have "w \<in> set (S st)" using inS \<open>w \<in> dom (preorder st)\<close> False by blast
        ultimately show ?thesis using inB by blast
      qed
    qed
    have closed': "set (outboundNeighbors g x) \<subseteq> assigned st \<union> ?B" if "x \<in> assigned st \<union> ?B" for x
      using that c(5)[of x] B_edges[of x] by blast
    show ?thesis
      unfolding st'
    proof (rule conn_invI; (unfold n' fields)?)
      show "sorted_wrt (\<lambda>a b. number st b < number st a) rest"
        using c(1) unfolding S by (auto simp: sorted_wrt_append)
      show "sorted_wrt (\<lambda>a b. number st b < number st a) ps"
        using c(2) unfolding P by simp
      show "set ps \<subseteq> set rest"
      proof
        fix q assume q: "q \<in> set ps"
        then have "q \<in> set (S st)" using c(3) P by auto
        then show "q \<in> set rest" using underP[OF q] by (rule in_rest)
      qed
      show "G \<subseteq> set rest"
      proof
        fix x assume x: "x \<in> G"
        then have "x \<in> set (S st)" using c(4) by auto
        with below x show "x \<in> set rest" by (auto intro: in_rest)
      qed
    next
      fix x assume "x \<in> assigned st \<union> ?B"
      then show "set (outboundNeighbors g x) \<subseteq> assigned st \<union> ?B" by (rule closed')
    next
      fix x w assume x: "x \<in> set rest" "x \<notin> G" and w: "w \<in> set (outboundNeighbors g x)"
      have "x \<noteq> node" using under[OF x(1)] by auto
      with x restS have "edge_ok st x w" using c(6)[of x w] w by auto
      then show "edge_ok ?st x w"
        unfolding edge_ok_def n' fields using P by auto
    next
      fix s q assume "s \<in> set rest" "q \<in> set ps" "number st q \<le> number st s"
      then show "reaches g q s" using c(7)[of s q] restS P by auto
    next
      fix s assume s: "s \<in> set rest"
      with c(8)[of s] restS obtain q where q: "q \<in> set (P st)" "number st q \<le> number st s" "reaches g s q"
        by blast
      with under[OF s] have "q \<noteq> node" by auto
      with q P show "\<exists>q \<in> set ps. number st q \<le> number st s \<and> reaches g s q" by auto
    next
      fix c' u v assume c': "c' \<in> set (components st @ [ys @ [node]])" and u: "u \<in> set c'"
        and v: "v \<in> set c'"
      show "reaches g u v"
      proof (cases "c' \<in> set (components st)")
        case True
        then show ?thesis using c(9) u v by blast
      next
        case False
        with c' u v have uB: "u \<in> ?B" and vB: "v \<in> ?B" by auto
        from c(8)[of u] uB BS obtain q where q: "q \<in> set (P st)" "reaches g u q" by blast
        have "reaches g q node" using c(7)[OF nodeS q(1)] top q(1) by blast
        moreover have "reaches g node v"
          using c(7)[of v node] vB BS geB[OF vB] P by auto
        ultimately show ?thesis using q(2) by (blast intro: reaches_trans)
      qed
    next
      fix c' u v assume c': "c' \<in> set (components st @ [ys @ [node]])" and u: "u \<in> set c'"
        and m: "mutually_reachable g u v"
      show "v \<in> set c'"
      proof (cases "c' \<in> set (components st)")
        case True
        then show ?thesis using c(10) u m by blast
      next
        case False
        with c' u have uB: "u \<in> ?B" and c'B: "set c' = ?B" by auto
        from m have uv: "reaches g u v" and vu: "reaches g v u"
          by (simp_all add: mutually_reachable_def)
        have "v \<in> assigned st \<union> ?B"
          using reaches_closed[of "assigned st \<union> ?B" g u v] closed' uv uB by blast
        moreover have "v \<notin> assigned st"
        proof
          assume "v \<in> assigned st"
          then have "u \<in> assigned st"
            using reaches_closed[of "assigned st" g v u] c(5) vu by blast
          with unassigned[of u] uB BS show False by blast
        qed
        ultimately show ?thesis using c'B by blast
      qed
    qed
  qed
qed

lemma edge_ok_extends:
  assumes "edge_ok st x w" "extends st st'" "x \<in> dom (preorder st)"
    "set (P st) \<subseteq> dom (preorder st)"
  shows "edge_ok st' x w"
proof -
  from assms(1) have w: "w \<in> dom (preorder st)" by (simp add: edge_ok_def)
  have same: "number st' y = number st y" if "y \<in> dom (preorder st)" for y
    using assms(2) that by (rule number_extends)
  have sub: "set (P st') \<subseteq> set (P st)" "assigned st \<subseteq> assigned st'"
    "dom (preorder st) \<subseteq> dom (preorder st')"
    using assms(2) by (auto simp: extends_def dest: set_mono_suffix map_le_implies_dom_le)
  show ?thesis
  proof (cases "w \<in> assigned st")
    case True
    with w sub show ?thesis by (auto simp: edge_ok_def)
  next
    case False
    with assms(1) have all: "\<forall>p \<in> set (P st). number st p \<le> number st x \<longrightarrow> number st p \<le> number st w"
      by (simp add: edge_ok_def)
    have "number st' p \<le> number st' x \<longrightarrow> number st' p \<le> number st' w" if "p \<in> set (P st')" for p
    proof -
      from that sub(1) have p: "p \<in> set (P st)" by blast
      with assms(4) have "p \<in> dom (preorder st)" by blast
      with all p same[OF this] same[OF assms(3)] same[OF w] show ?thesis by simp
    qed
    with w sub(3) show ?thesis unfolding edge_ok_def by blast
  qed
qed

lemma extends_dom: "extends st st' \<Longrightarrow> dom (preorder st) \<subseteq> dom (preorder st')"
  unfolding extends_def by (blast dest: map_le_implies_dom_le)

lemma finish_preorder: "finish node st = Some st' \<Longrightarrow> preorder st' = preorder st"
  by (auto simp: finish_def split: if_splits option.splits)

lemma S_numbered: "scc_inv g st \<Longrightarrow> set (S st) \<subseteq> dom (preorder st)"
  by (auto simp: scc_inv_def)

lemma DFS_conn:
  "\<forall>G st'. well_formed g \<longrightarrow> scc_inv g st \<longrightarrow> conn_inv g G st \<longrightarrow> node \<in> set (nodes g) \<longrightarrow>
     preorder st node = None \<longrightarrow> unvisited g st \<le> depth \<longrightarrow>
     (\<forall>p \<in> set (P st). reaches g p node) \<longrightarrow> DFS depth g node st = Some st' \<longrightarrow>
     conn_inv g G st' \<and> node \<in> dom (preorder st')"
  and DFS_neighbors_conn:
  "\<forall>G v st'. well_formed g \<longrightarrow> scc_inv g st \<longrightarrow> conn_inv g G st \<longrightarrow> v \<in> G \<longrightarrow>
     set ns \<subseteq> set (outboundNeighbors g v) \<longrightarrow>
     (\<forall>p \<in> set (P st). number st p \<le> number st v) \<longrightarrow> unvisited g st \<le> depth \<longrightarrow>
     DFS_neighbors depth g ns st = Some st' \<longrightarrow>
     conn_inv g G st' \<and> (\<forall>w \<in> set ns. edge_ok st' v w)"
proof (induction depth g node st and depth g ns st rule: DFS_DFS_neighbors.induct)
  case (1 g node st)
  show ?case by simp
next
  case (2 depth g node st)
  show ?case
  proof (intro allI impI)
    fix G st'
    assume wf: "well_formed g" and inv: "scc_inv g st" and conn: "conn_inv g G st"
      and node: "node \<in> set (nodes g)" and none: "preorder st node = None"
      and fuel: "unvisited g st \<le> Suc depth" and reach: "\<forall>p \<in> set (P st). reaches g p node"
      and run: "DFS (Suc depth) g node st = Some st'"
    let ?st1 = "pushed node st"
    note c = conn_invD[OF conn]
    have inv1: "scc_inv g ?st1" using inv node none by (rule pushed_inv)
    have conn1: "conn_inv g (insert node G) ?st1" using inv conn none reach by (rule pushed_conn)
    have fuel1: "unvisited g ?st1 \<le> depth"
      using pushed_unvisited[OF node none] fuel by simp
    from DFS_neighbors_returns[OF wf inv1 outboundNeighbors_nodes[OF wf] fuel1]
    obtain st2 where st2: "DFS_neighbors depth g (outboundNeighbors g node) ?st1 = Some st2"
      "scc_inv g st2" "extends ?st1 st2"
      by blast
    from run have fin: "finish node st2 = Some st'" unfolding DFS_Suc st2(1) by simp
    have oldnum: "x \<noteq> node \<and> number ?st1 x = number st x \<and> number st x < count st"
      if "x \<in> set (S st)" for x
    proof -
      from number_on_S[OF inv that] none have "x \<noteq> node" "number st x < count st" by auto
      then show ?thesis by (simp add: number_pushed)
    qed
    have top1: "\<forall>p \<in> set (P ?st1). number ?st1 p \<le> number ?st1 node"
    proof
      fix p assume "p \<in> set (P ?st1)"
      then have "p = node \<or> p \<in> set (S st)" using c(3) by (auto simp: pushed_def)
      then show "number ?st1 p \<le> number ?st1 node"
        using oldnum[of p] by (auto simp: number_pushed)
    qed
    from "2.IH"[folded pushed_def] wf inv1 conn1 top1 fuel1 st2(1)
    have conn2: "conn_inv g (insert node G) st2"
      and finished: "\<forall>w \<in> set (outboundNeighbors g node). edge_ok st2 node w"
      by blast+
    have dom1: "set (S ?st1) \<subseteq> dom (preorder ?st1)" using inv1 by (rule S_numbered)
    have keep: "number st2 x = number ?st1 x" if "x \<in> set (S ?st1)" for x
      using st2(3) by (rule number_extends) (use that dom1 in blast)
    have S1: "S ?st1 = node # S st" "P ?st1 = node # P st" by (simp_all add: pushed_def)
    have below: "\<forall>x \<in> G. number st2 x < number st2 node"
    proof
      fix x assume "x \<in> G"
      then have x: "x \<in> set (S st)" using c(4) by blast
      with keep[of x] keep[of node] oldnum[OF x] show "number st2 x < number st2 node"
        by (simp add: S1 number_pushed)
    qed
    have top2: "\<forall>p \<in> set (P st2). number st2 p \<le> number st2 node"
    proof
      fix p assume "p \<in> set (P st2)"
      then have p: "p \<in> set (P ?st1)" using st2(3) by (auto simp: extends_def dest: set_mono_suffix)
      then have "p \<in> set (S ?st1)" using c(3) by (auto simp: S1)
      moreover have "number ?st1 p \<le> number ?st1 node" using top1 p by blast
      ultimately show "number st2 p \<le> number st2 node"
        using keep[of p] keep[of node] by (simp add: S1)
    qed
    from st2(2) conn2 below finished top2 fin have "conn_inv g G st'" by (rule finish_conn)
    moreover have "preorder st2 node = Some (count st)"
      using none st2(3) by (rule extends_pushed)
    then have "node \<in> dom (preorder st')" using finish_preorder[OF fin] by auto
    ultimately show "conn_inv g G st' \<and> node \<in> dom (preorder st')" ..
  qed
next
  case (3 depth g st)
  show ?case by simp
next
  case (4 depth g neighbor rest st)
  show ?case
  proof (intro allI impI)
    fix G v st'
    assume wf: "well_formed g" and inv: "scc_inv g st" and conn: "conn_inv g G st"
      and v: "v \<in> G" and ns: "set (neighbor # rest) \<subseteq> set (outboundNeighbors g v)"
      and top: "\<forall>p \<in> set (P st). number st p \<le> number st v"
      and fuel: "unvisited g st \<le> depth"
      and run: "DFS_neighbors depth g (neighbor # rest) st = Some st'"
    note c = conn_invD[OF conn]
    have edge: "neighbor \<in> set (outboundNeighbors g v)" and rest: "set rest \<subseteq> set (outboundNeighbors g v)"
      using ns by auto
    have rest_nodes: "set rest \<subseteq> set (nodes g)"
      using rest outboundNeighbors_nodes[OF wf, of v] by blast
    have vS: "v \<in> set (S st)" using v c(4) by blast
    have vdom: "v \<in> dom (preorder st)" using vS S_numbered[OF inv] by blast
    have Pdom: "set (P st) \<subseteq> dom (preorder st)" using c(3) S_numbered[OF inv] by blast
    have continue: "conn_inv g G st' \<and> (\<forall>w \<in> set (neighbor # rest). edge_ok st' v w)"
      if inv1: "scc_inv g st1" and conn1: "conn_inv g G st1" and ext1: "extends st st1"
        and ok1: "edge_ok st1 v neighbor"
        and run1: "DFS_neighbors depth g rest st1 = Some st'"
        and IH: "\<And>G v st'. well_formed g \<Longrightarrow> scc_inv g st1 \<Longrightarrow> conn_inv g G st1 \<Longrightarrow> v \<in> G \<Longrightarrow>
            set rest \<subseteq> set (outboundNeighbors g v) \<Longrightarrow>
            \<forall>p \<in> set (P st1). number st1 p \<le> number st1 v \<Longrightarrow> unvisited g st1 \<le> depth \<Longrightarrow>
            DFS_neighbors depth g rest st1 = Some st' \<Longrightarrow>
            conn_inv g G st' \<and> (\<forall>w \<in> set rest. edge_ok st' v w)"
      for st1
    proof -
      have fuel1: "unvisited g st1 \<le> depth" using unvisited_mono[OF ext1, of g] fuel by simp
      have top1: "\<forall>p \<in> set (P st1). number st1 p \<le> number st1 v"
      proof
        fix p assume "p \<in> set (P st1)"
        then have p: "p \<in> set (P st)" using ext1 by (auto simp: extends_def dest: set_mono_suffix)
        with Pdom have "p \<in> dom (preorder st)" by blast
        with top p number_extends[OF ext1 this] number_extends[OF ext1 vdom]
        show "number st1 p \<le> number st1 v" by simp
      qed
      from IH[OF wf inv1 conn1 v rest top1 fuel1 run1]
      have conn': "conn_inv g G st'" and oks: "\<forall>w \<in> set rest. edge_ok st' v w" by blast+
      from DFS_neighbors_returns[OF wf inv1 rest_nodes fuel1] run1
      have ext': "extends st1 st'" by auto
      have "v \<in> dom (preorder st1)" "set (P st1) \<subseteq> dom (preorder st1)"
        using vdom extends_dom[OF ext1] conn_invD(3)[OF conn1] S_numbered[OF inv1]
        by blast+
      with ok1 ext' have "edge_ok st' v neighbor" by (rule edge_ok_extends)
      with conn' oks show ?thesis by simp
    qed
    show "conn_inv g G st' \<and> (\<forall>w \<in> set (neighbor # rest). edge_ok st' v w)"
    proof (cases "preorder st neighbor")
      case (Some k)
      let ?st1 = "if neighbor \<notin> assigned st then st\<lparr>P := pop_while (preorder st) k (P st)\<rparr> else st"
      have step: "DFS_neighbors depth g (neighbor # rest) st = DFS_neighbors depth g rest ?st1"
        by (simp only: DFS_neighbors.simps Some option.case)
      have inv1: "scc_inv g ?st1" using inv by (rule popped_inv)
      have ext1: "extends st ?st1" using Some by (rule popped_extends)
      have "conn_inv g G ?st1 \<and> edge_ok ?st1 v neighbor"
      proof (cases "neighbor \<in> assigned st")
        case True
        with Some conn show ?thesis by (auto simp: edge_ok_def)
      next
        case False
        with popped_conn[OF inv conn v top edge Some False] show ?thesis by simp
      qed
      then show ?thesis
        using continue[of ?st1, OF inv1 _ ext1] "4.IH"(3)[OF Some] run unfolding step by blast
    next
      case None
      have nb: "neighbor \<in> set (nodes g)" using edge outboundNeighbors_nodes[OF wf, of v] by blast
      from DFS_returns[OF wf inv nb None fuel]
      obtain st1 where st1: "DFS depth g neighbor st = Some st1" "scc_inv g st1" "extends st st1"
        by blast
      with run None have run1: "DFS_neighbors depth g rest st1 = Some st'" by simp
      have reach: "\<forall>p \<in> set (P st). reaches g p neighbor"
      proof
        fix p assume p: "p \<in> set (P st)"
        with top have "reaches g p v" using c(7)[OF vS p] by blast
        then show "reaches g p neighbor" using reaches_edge[OF edge] by (rule reaches_trans)
      qed
      from "4.IH"(1)[OF None] wf inv conn nb None fuel reach st1(1)
      have conn1: "conn_inv g G st1" and numbered: "neighbor \<in> dom (preorder st1)" by blast+
      have ok1: "edge_ok st1 v neighbor"
      proof -
        from numbered obtain k where k: "preorder st1 neighbor = Some k" by auto
        with None st1(3) have "count st \<le> k" unfolding extends_def by blast
        moreover have "number st v < count st" using number_on_S(2)[OF inv vS] .
        ultimately have "number st1 v < number st1 neighbor"
          using number_extends[OF st1(3) vdom] number_Some[OF k] by simp
        with numbered show ?thesis by (auto simp: edge_ok_def)
      qed
      show ?thesis
        using continue[of st1, OF st1(2) conn1 st1(3) ok1 run1] "4.IH"(2)[OF None st1(1)] by blast
    qed
  qed
qed

lemma initial_state_conn: "conn_inv g {} initial_state"
  by (simp add: conn_inv_def initial_state_def)

lemma stronglyConnectedComponents_nodes_conn:
  "well_formed g \<Longrightarrow> scc_inv g st \<Longrightarrow> conn_inv g {} st \<Longrightarrow> S st = [] \<Longrightarrow> P st = [] \<Longrightarrow>
   set vs \<subseteq> set (nodes g) \<Longrightarrow> unvisited g st \<le> depth \<Longrightarrow>
   stronglyConnectedComponents_nodes depth g vs st = Some st' \<Longrightarrow> conn_inv g {} st'"
proof (induction vs arbitrary: st)
  case Nil
  then show ?case by simp
next
  case (Cons vertex rest)
  show ?case
  proof (cases "vertex \<in> assigned st")
    case True
    with Cons.prems show ?thesis by (intro Cons.IH[of st]) auto
  next
    case False
    have vertex: "vertex \<in> set (nodes g)" using Cons.prems(6) by simp
    from DFS_root[OF Cons.prems(1,2,4,5) vertex False Cons.prems(7)]
    obtain st1 where st1: "DFS depth g vertex st = Some st1" "scc_inv g st1" "S st1 = []" "P st1 = []"
      "unvisited g st1 \<le> unvisited g st"
      by blast
    have "dom (preorder st) = assigned st"
      using Cons.prems(2,4) by (auto simp: scc_inv_def)
    with False have none: "preorder st vertex = None" by (auto simp: dom_def)
    from DFS_conn[of g st vertex depth] Cons.prems(1,2,3,5,7) vertex none st1(1)
    have conn1: "conn_inv g {} st1" by simp
    from Cons.prems(8) False st1(1)
    have "stronglyConnectedComponents_nodes depth g rest st1 = Some st'" by simp
    with Cons.prems(1,6,7) st1 conn1 show ?thesis by (intro Cons.IH[of st1]) auto
  qed
qed

lemma stronglyConnectedComponents_groups:
  assumes "well_formed g" "type g \<noteq> Undirected" "order g \<le> depth"
  shows "\<exists>cs. stronglyConnectedComponents depth g = Some (Inr cs) \<and>
           (\<forall>u \<in> set (nodes g). \<forall>v. same_component cs u v \<longleftrightarrow> mutually_reachable g u v)"
proof -
  consider "order g = 0" | "order g \<noteq> 0" "size_g g = 0" | "order g \<noteq> 0" "size_g g \<noteq> 0"
    by blast
  then show ?thesis
  proof cases
    case 1
    then show ?thesis by (simp add: stronglyConnectedComponents_def order_def nodes_def)
  next
    case 2
    then have "edge_entries g = []" by (simp add: size_g_def)
    then have none: "outboundNeighbors g x = []" for x
      by (simp add: outboundNeighbors_def out_neighbors_def undirected_neighbors_def dedup_def)
    have "mutually_reachable g u v \<longleftrightarrow> u = v" for u v
    proof
      assume "mutually_reachable g u v"
      then have "reaches g u v" by (simp add: mutually_reachable_def)
      then have "v \<in> {u}" by (rule reaches_closed[rotated]) (simp_all add: none)
      then show "u = v" by simp
    qed (simp add: mutually_reachable_def reaches_refl)
    moreover have "same_component (map (\<lambda>node. [node]) (nodes g)) u v \<longleftrightarrow> u = v"
      if "u \<in> set (nodes g)" for u v
      using that by (auto simp: same_component_def)
    ultimately show ?thesis
      using 2 assms(2) by (simp add: stronglyConnectedComponents_def)
  next
    case 3
    have "unvisited g initial_state = order g"
      using card_nodes[OF assms(1)] by (simp add: unvisited_def initial_state_def)
    with assms(3) have fuel: "unvisited g initial_state \<le> depth" by simp
    from stronglyConnectedComponents_nodes_returns[OF assms(1) initial_state_inv _ _ _ fuel, of "nodes g"]
    obtain st' where st': "stronglyConnectedComponents_nodes depth g (nodes g) initial_state = Some st'"
      "scc_inv g st'" "set (nodes g) \<subseteq> assigned st'"
      by (auto simp: initial_state_def)
    have conn: "conn_inv g {} st'"
      using assms(1) initial_state_inv initial_state_conn _ _ _ fuel st'(1)
      by (rule stronglyConnectedComponents_nodes_conn) (simp_all add: initial_state_def)
    note c = conn_invD[OF conn]
    have run: "stronglyConnectedComponents depth g = Some (Inr (components st'))"
      using 3 assms(2) st'(1) by (simp add: stronglyConnectedComponents_def)
    have "same_component (components st') u v \<longleftrightarrow> mutually_reachable g u v"
      if u: "u \<in> set (nodes g)" for u v
    proof
      assume "same_component (components st') u v"
      then obtain c' where "c' \<in> set (components st')" "u \<in> set c'" "v \<in> set c'"
        by (auto simp: same_component_def)
      then show "mutually_reachable g u v"
        using c(9) by (simp add: mutually_reachable_def)
    next
      assume m: "mutually_reachable g u v"
      from u st'(2,3) have "u \<in> set (concat (components st'))" by (auto simp: scc_inv_def)
      then obtain c' where c': "c' \<in> set (components st')" "u \<in> set c'" by auto
      with c(10)[OF c' m] show "same_component (components st') u v"
        by (auto simp: same_component_def)
    qed
    with run show ?thesis by blast
  qed
qed

section \<open>The claims of the specification\<close>

text \<open>
  Claim C1. On a well-formed graph the components passed to the callback of
  \<^verbatim>\<open>forEachConnectedComponent\<close> are a partition of the nodes, and so are the components
  returned by \<^verbatim>\<open>stronglyConnectedComponents\<close> on a graph that is not undirected, which
  returns whenever the recursion may go as deep as the graph has nodes.
\<close>

theorem components_partition:
  assumes "well_formed g"
  shows "partition_of (forEachConnectedComponent g) (nodes g) \<and>
         (type g \<noteq> Undirected \<longrightarrow>
            (\<forall>depth \<ge> order g. \<exists>cs.
                stronglyConnectedComponents depth g = Some (Inr cs) \<and>
                partition_of cs (nodes g)))"
proof
  show "partition_of (forEachConnectedComponent g) (nodes g)"
    using forEachConnectedComponent_partition[OF assms] by (rule partition_ofI)
  show "type g \<noteq> Undirected \<longrightarrow>
          (\<forall>depth \<ge> order g. \<exists>cs.
              stronglyConnectedComponents depth g = Some (Inr cs) \<and>
              partition_of cs (nodes g))"
    using stronglyConnectedComponents_partition[OF assms] by (blast intro: partition_ofI)
qed

theorem components_partition_witness:
  "well_formed scenario_directed \<and>
   partition_of (forEachConnectedComponent scenario_directed) (nodes scenario_directed) \<and>
   forEachConnectedComponent scenario_directed = [[1, 2, 3]] \<and>
   stronglyConnectedComponents 3 scenario_directed = Some (Inr [[3], [2, 1]]) \<and>
   partition_of [[3], [2, 1]] (nodes scenario_directed)"
proof -
  have wf: "well_formed scenario_directed" by code_simp
  have weak: "forEachConnectedComponent scenario_directed = [[1, 2, 3]]" by code_simp
  have strong: "stronglyConnectedComponents 3 scenario_directed = Some (Inr [[3], [2, 1]])"
    by code_simp
  have "type scenario_directed \<noteq> Undirected" "order scenario_directed \<le> 3"
    by (simp_all add: scenario_directed_def order_def)
  with components_partition[OF wf] strong wf weak show ?thesis by auto
qed



text \<open>
  Claim C3, as stated: \<^verbatim>\<open>stronglyConnectedComponents\<close> throws on every undirected graph,
  the one with zero nodes included. It does not: the test of \<^verbatim>\<open>graph.order\<close> comes first,
  and the undirected graph with zero nodes gets the empty list.
\<close>

theorem undirected_null_graph_returns:
  "type null_undirected = Undirected \<and>
   stronglyConnectedComponents 1 null_undirected = Some (Inr []) \<and>
   stronglyConnectedComponents 1 null_undirected \<noteq> Some (Inl WrongDirectionality)"
  by (simp add: null_undirected_def stronglyConnectedComponents_def order_def)

text \<open>
  Claim C3, amended. On an undirected graph with at least one node
  \<^verbatim>\<open>stronglyConnectedComponents\<close> throws the wrong-directionality error, whatever depth
  the recursion is allowed, and so returns nothing; on an undirected graph with zero
  nodes it returns the empty list.
\<close>

theorem undirected_graph_throws:
  "type g = Undirected \<Longrightarrow>
   stronglyConnectedComponents depth g =
     (if order g = 0 then Some (Inr []) else Some (Inl WrongDirectionality))"
  by (simp add: stronglyConnectedComponents_def)

theorem undirected_graph_throws_witness:
  "type single_undirected = Undirected \<and> order single_undirected \<noteq> 0 \<and>
   stronglyConnectedComponents 1 single_undirected = Some (Inl WrongDirectionality)"
  using undirected_graph_throws[of single_undirected 1]
  by (simp add: single_undirected_def order_def)

text \<open>
  Claim C4. \<^verbatim>\<open>stronglyConnectedComponents\<close> groups the nodes by mutual directed
  reachability: on every well-formed graph that is not undirected, once the recursion
  may go as deep as the graph has nodes, it returns components such that a node is in
  the same component as another key exactly when each reaches the other along outbound
  neighbors. For the directed cycle A\<rightarrow>B\<rightarrow>C\<rightarrow>A it returns the single component
  \<open>{A, B, C}\<close> and for the directed path A\<rightarrow>B\<rightarrow>C three singletons, once the recursion
  may go three calls deep, and in both graphs two nodes are in the same returned
  component exactly when each reaches the other. The weak walker finds the single
  component \<open>{A, B, C}\<close> in the cycle and in the path, on the directed graphs as well as
  on their undirected readings.
\<close>

theorem strong_components_by_mutual_reachability:
  "(well_formed g \<and> type g \<noteq> Undirected \<and> order g \<le> depth \<longrightarrow>
      (\<exists>cs. stronglyConnectedComponents depth g = Some (Inr cs) \<and>
         (\<forall>u \<in> set (nodes g). \<forall>v. same_component cs u v \<longleftrightarrow> mutually_reachable g u v))) \<and>
   (3 \<le> depth \<longrightarrow>
      stronglyConnectedComponents depth directed_cycle = Some (Inr [[''C'', ''B'', ''A'']]) \<and>
      (\<forall>u \<in> set (nodes directed_cycle). \<forall>v \<in> set (nodes directed_cycle).
         same_component [[''C'', ''B'', ''A'']] u v \<longleftrightarrow> mutually_reachable directed_cycle u v) \<and>
      stronglyConnectedComponents depth directed_path = Some (Inr [[''C''], [''B''], [''A'']]) \<and>
      (\<forall>u \<in> set (nodes directed_path). \<forall>v \<in> set (nodes directed_path).
         same_component [[''C''], [''B''], [''A'']] u v \<longleftrightarrow> mutually_reachable directed_path u v)) \<and>
   forEachConnectedComponent (as_undirected directed_cycle) = [[''A'', ''C'', ''B'']] \<and>
   forEachConnectedComponent (as_undirected directed_path) = [[''A'', ''B'', ''C'']] \<and>
   forEachConnectedComponent directed_cycle = [[''A'', ''B'', ''C'']] \<and>
   forEachConnectedComponent directed_path = [[''A'', ''B'', ''C'']]"
proof (intro conjI impI)
  assume "well_formed g \<and> type g \<noteq> Undirected \<and> order g \<le> depth"
  then show "\<exists>cs. stronglyConnectedComponents depth g = Some (Inr cs) \<and>
         (\<forall>u \<in> set (nodes g). \<forall>v. same_component cs u v \<longleftrightarrow> mutually_reachable g u v)"
    using stronglyConnectedComponents_groups[of g depth] by blast
next
  assume depth: "3 \<le> depth"
  have "stronglyConnectedComponents 3 directed_cycle = Some (Inr [[''C'', ''B'', ''A'']])"
    by code_simp
  then show "stronglyConnectedComponents depth directed_cycle = Some (Inr [[''C'', ''B'', ''A'']])"
    using depth by (rule stronglyConnectedComponents_depth_mono)
  have "stronglyConnectedComponents 3 directed_path = Some (Inr [[''C''], [''B''], [''A'']])"
    by code_simp
  then show "stronglyConnectedComponents depth directed_path = Some (Inr [[''C''], [''B''], [''A'']])"
    using depth by (rule stronglyConnectedComponents_depth_mono)
next
  have ns: "nodes directed_cycle = [''A'', ''B'', ''C'']" by code_simp
  have "same_component [[''C'', ''B'', ''A'']] u v \<longleftrightarrow> mutually_reachable directed_cycle u v"
    if "u \<in> set (nodes directed_cycle)" "v \<in> set (nodes directed_cycle)" for u v
    using that cycle_mutually_reachable[OF that] by (auto simp: same_component_def ns)
  then show "\<forall>u \<in> set (nodes directed_cycle). \<forall>v \<in> set (nodes directed_cycle).
         same_component [[''C'', ''B'', ''A'']] u v \<longleftrightarrow> mutually_reachable directed_cycle u v"
    by blast
next
  have ns: "nodes directed_path = [''A'', ''B'', ''C'']" by code_simp
  have "same_component [[''C''], [''B''], [''A'']] u v \<longleftrightarrow> mutually_reachable directed_path u v"
    if "u \<in> set (nodes directed_path)" "v \<in> set (nodes directed_path)" for u v
    using that path_mutually_reachable[OF that] by (auto simp: same_component_def ns)
  then show "\<forall>u \<in> set (nodes directed_path). \<forall>v \<in> set (nodes directed_path).
         same_component [[''C''], [''B''], [''A'']] u v \<longleftrightarrow> mutually_reachable directed_path u v"
    by blast
next
  show "forEachConnectedComponent (as_undirected directed_cycle) = [[''A'', ''C'', ''B'']]"
    by code_simp
  show "forEachConnectedComponent (as_undirected directed_path) = [[''A'', ''B'', ''C'']]"
    by code_simp
  show "forEachConnectedComponent directed_cycle = [[''A'', ''B'', ''C'']]"
    by code_simp
  show "forEachConnectedComponent directed_path = [[''A'', ''B'', ''C'']]"
    by code_simp
qed

theorem strong_components_by_mutual_reachability_witness:
  "well_formed tail_into_cycle \<and> type tail_into_cycle \<noteq> Undirected \<and> order tail_into_cycle \<le> 3 \<and>
   stronglyConnectedComponents 3 tail_into_cycle = Some (Inr [[3, 2], [1]]) \<and>
   mutually_reachable tail_into_cycle 2 3 \<and> \<not> mutually_reachable tail_into_cycle 1 2 \<and>
   stronglyConnectedComponents 3 directed_cycle = Some (Inr [[''C'', ''B'', ''A'']]) \<and>
   stronglyConnectedComponents 3 directed_path = Some (Inr [[''C''], [''B''], [''A'']]) \<and>
   forEachConnectedComponent (as_undirected directed_cycle) = [[''A'', ''C'', ''B'']] \<and>
   forEachConnectedComponent (as_undirected directed_path) = [[''A'', ''B'', ''C'']]"
proof -
  note t = strong_components_by_mutual_reachability[of tail_into_cycle 3]
  have h: "well_formed tail_into_cycle" "type tail_into_cycle \<noteq> Undirected"
    "order tail_into_cycle \<le> 3"
    by code_simp+
  have run: "stronglyConnectedComponents 3 tail_into_cycle = Some (Inr [[3, 2], [1]])"
    by code_simp
  from t h obtain cs where cs: "stronglyConnectedComponents 3 tail_into_cycle = Some (Inr cs)"
    "\<forall>u \<in> set (nodes tail_into_cycle). \<forall>v. same_component cs u v \<longleftrightarrow> mutually_reachable tail_into_cycle u v"
    by blast
  from cs(1) run have "cs = [[3, 2], [1]]" by simp
  with cs(2) have groups:
    "\<forall>u \<in> set (nodes tail_into_cycle). \<forall>v. same_component [[3, 2], [1]] u v \<longleftrightarrow> mutually_reachable tail_into_cycle u v"
    by simp
  have mem: "2 \<in> set (nodes tail_into_cycle)" "1 \<in> set (nodes tail_into_cycle)"
    by code_simp+
  have "same_component [[3, 2], [1]] 2 (3 :: nat)" "\<not> same_component [[3, 2], [1]] 1 (2 :: nat)"
    by (simp_all add: same_component_def)
  with groups mem have m: "mutually_reachable tail_into_cycle 2 3"
    "\<not> mutually_reachable tail_into_cycle 1 2"
    by blast+
  have examples: "stronglyConnectedComponents 3 directed_cycle = Some (Inr [[''C'', ''B'', ''A'']])"
    "stronglyConnectedComponents 3 directed_path = Some (Inr [[''C''], [''B''], [''A'']])"
    "forEachConnectedComponent (as_undirected directed_cycle) = [[''A'', ''C'', ''B'']]"
    "forEachConnectedComponent (as_undirected directed_path) = [[''A'', ''B'', ''C'']]"
    using t by simp_all
  from h run m examples show ?thesis by simp
qed

text \<open>
  Claim C5. On a well-formed graph \<^verbatim>\<open>largestConnectedComponentSubgraph\<close> returns a graph
  whose nodes are the keys of the largest weak component; both endpoints of each of its
  edges are among its nodes; every node has the attributes it has in the source graph;
  and its edges are edges of the source graph as they are there (key, attributes,
  endpoints and directionality), namely all those whose source is in the component.
\<close>

theorem subgraph_of_largest_component:
  assumes "well_formed g"
  shows "\<exists>S'. largestConnectedComponentSubgraph g = Inr S' \<and>
           nodes S' = largestConnectedComponent g \<and>
           (\<forall>e \<in> set (edge_entries S'). source e \<in> set (nodes S') \<and> target e \<in> set (nodes S')) \<and>
           (\<forall>k \<in> set (nodes S'). getNodeAttributes S' k = getNodeAttributes g k) \<and>
           edge_entries S' = filter (\<lambda>e. source e \<in> set (nodes S')) (edge_entries g) \<and>
           type S' = type g"
proof -
  let ?c = "largestConnectedComponent g"
  have c: "set ?c \<subseteq> set (nodes g) \<and> closed g (set ?c)"
  proof (cases "order g = 0")
    case True
    then show ?thesis by (simp add: largestConnectedComponent_def closed_def)
  next
    case False
    with assms have "?c \<in> set (forEachConnectedComponent g)" by (rule largest_is_component)
    with assms show ?thesis by (simp add: component_nodes component_closed)
  qed
  from subgraph_nodes_result[of ?c g "nullCopy g"] c obtain S1 entries where
    S1: "largestConnectedComponentSubgraph_nodes g ?c (nullCopy g) = Inr S1"
    "node_entries S1 = entries" "map fst entries = ?c"
    "\<forall>entry \<in> set entries. getNodeAttributes g (fst entry) = Some (snd entry)"
    "edge_entries S1 = []" "type S1 = type g"
    by (auto simp: nullCopy_def)
  let ?S = "largestConnectedComponentSubgraph_edges (edge_entries g) S1"
  note r = subgraph_edges_result[of "edge_entries g" S1]
  have run: "largestConnectedComponentSubgraph g = Inr ?S"
    by (simp add: largestConnectedComponentSubgraph_def S1(1))
  have n: "nodes ?S = ?c" using r S1(2,3) by (simp add: nodes_def)
  have e: "edge_entries ?S = filter (\<lambda>e. source e \<in> set ?c) (edge_entries g)"
    using r S1(2,3,5) by (simp add: nodes_def)
  have "source e \<in> set ?c \<and> target e \<in> set ?c" if "e \<in> set (edge_entries ?S)" for e
    using that c closed_edge[of g "set ?c" e] unfolding e by auto
  moreover have "getNodeAttributes ?S k = getNodeAttributes g k" if "k \<in> set ?c" for k
  proof -
    from that S1(3) have "k \<in> fst ` set entries" by (metis set_map)
    then obtain a where a: "map_of entries k = Some a"
      by (metis domD dom_map_of_conv_image_fst)
    then have "(k, a) \<in> set entries" by (rule map_of_SomeD)
    with S1(4) have "getNodeAttributes g k = Some a" by auto
    with a r S1(2) show ?thesis by (simp add: getNodeAttributes_def)
  qed
  ultimately show ?thesis
    using run n e r S1(6) by (intro exI[of _ ?S]) simp
qed

theorem subgraph_of_largest_component_witness:
  "well_formed scenario_undirected \<and>
   largestConnectedComponent scenario_undirected = [1, 2, 3] \<and>
   largestConnectedComponentSubgraph scenario_undirected =
     Inr \<lparr>type = Undirected, node_entries = [(1, ''one''), (2, ''two''), (3, ''three'')],
          edge_entries =
            [\<lparr>key = 0, attr = ''w12'', source = 1, target = 2, undirected = True\<rparr>,
             \<lparr>key = 1, attr = ''w23'', source = 2, target = 3, undirected = True\<rparr>]\<rparr>"
proof -
  have wf: "well_formed scenario_undirected" by code_simp
  have "largestConnectedComponent scenario_undirected = [1, 2, 3]" by code_simp
  moreover have "largestConnectedComponentSubgraph scenario_undirected =
     Inr \<lparr>type = Undirected, node_entries = [(1, ''one''), (2, ''two''), (3, ''three'')],
          edge_entries =
            [\<lparr>key = 0, attr = ''w12'', source = 1, target = 2, undirected = True\<rparr>,
             \<lparr>key = 1, attr = ''w23'', source = 2, target = 3, undirected = True\<rparr>]\<rparr>"
    by code_simp
  ultimately show ?thesis using subgraph_of_largest_component[OF wf] wf by simp
qed

text \<open>
  Claim C6, as stated: on every well-formed graph, the weak components of the graph
  that \<^verbatim>\<open>cropToLargestConnectedComponent\<close> leaves are exactly one component. On the null
  graph they are none: the walker emits no component for a graph without nodes.
\<close>

theorem crop_of_null_graph:
  "well_formed empty_graph \<and>
   connectedComponents (cropToLargestConnectedComponent empty_graph) = [] \<and>
   length (connectedComponents (cropToLargestConnectedComponent empty_graph)) \<noteq> 1"
  by code_simp

text \<open>
  Claim C6, amended. On a well-formed graph with at least one node, after
  \<^verbatim>\<open>cropToLargestConnectedComponent\<close> the nodes of the graph are the nodes of its largest
  weak component, in their enumeration order, and the weak components of the cropped
  graph are this one component.
\<close>

theorem crop_keeps_largest_component:
  assumes "well_formed g" "order g \<noteq> 0"
  shows "set (nodes (cropToLargestConnectedComponent g)) = set (largestConnectedComponent g) \<and>
         nodes (cropToLargestConnectedComponent g) =
           filter (\<lambda>k. k \<in> set (largestConnectedComponent g)) (nodes g) \<and>
         connectedComponents (cropToLargestConnectedComponent g) = [largestConnectedComponent g]"
proof -
  let ?c = "largestConnectedComponent g"
  let ?g = "cropToLargestConnectedComponent g"
  have c: "?c \<in> set (forEachConnectedComponent g)"
    using assms by (rule largest_is_component)
  have n: "nodes ?g = filter (\<lambda>k. k \<in> set ?c) (nodes g)"
    using assms(1) by (rule crop_result)
  have "set ?c \<subseteq> set (nodes g)" using assms(1) c by (rule component_nodes)
  with n have "set (nodes ?g) = set ?c" by auto
  moreover have "forEachConnectedComponent ?g = [?c]"
    using c n crop_result(2)[OF assms(1)] by (rule restricted_components)
  ultimately show ?thesis using n by (simp add: connectedComponents_def)
qed

theorem crop_keeps_largest_component_witness:
  "well_formed scenario_undirected \<and> order scenario_undirected \<noteq> 0 \<and>
   largestConnectedComponent scenario_undirected = [1, 2, 3] \<and>
   nodes (cropToLargestConnectedComponent scenario_undirected) = [1, 2, 3] \<and>
   connectedComponents (cropToLargestConnectedComponent scenario_undirected) = [[1, 2, 3]]"
proof -
  have h: "well_formed scenario_undirected" "order scenario_undirected \<noteq> 0" by code_simp+
  have "largestConnectedComponent scenario_undirected = [1, 2, 3]"
    "nodes scenario_undirected = [1, 2, 3, 4, 5]"
    by code_simp+
  with crop_keeps_largest_component[OF h] h show ?thesis by simp
qed

text \<open>
  Claim C7. On a graph with at least one node and no edge, the weak components are the
  singletons of the nodes, in enumeration order, and so are the strong components
  when the graph is not undirected.
\<close>

theorem no_edges_singletons:
  assumes "well_formed g" "order g \<noteq> 0" "size_g g = 0"
  shows "forEachConnectedComponent g = map (\<lambda>node. [node]) (nodes g) \<and>
         (type g \<noteq> Undirected \<longrightarrow>
            stronglyConnectedComponents depth g = Some (Inr (map (\<lambda>node. [node]) (nodes g))))"
proof -
  have "edge_entries g = []" using assms(3) by (simp add: size_g_def)
  moreover have "distinct (nodes g)" using assms(1) by (simp add: well_formed_def)
  ultimately have "forEachConnectedComponent_nodes g (nodes g) {} = map (\<lambda>node. [node]) (nodes g)"
    by (intro no_edges_nodes) auto
  with assms(2,3) show ?thesis
    by (simp add: forEachConnectedComponent_def stronglyConnectedComponents_def)
qed

theorem no_edges_singletons_witness:
  "well_formed isolated_nodes \<and> order isolated_nodes \<noteq> 0 \<and> size_g isolated_nodes = 0 \<and>
   type isolated_nodes \<noteq> Undirected \<and>
   forEachConnectedComponent isolated_nodes = [[1], [2], [3]] \<and>
   stronglyConnectedComponents 0 isolated_nodes = Some (Inr [[1], [2], [3]])"
proof -
  have h: "well_formed isolated_nodes" "order isolated_nodes \<noteq> 0" "size_g isolated_nodes = 0"
    by (simp_all add: well_formed_def isolated_nodes_def order_def size_g_def nodes_def)
  have "type isolated_nodes \<noteq> Undirected" "nodes isolated_nodes = [1, 2, 3]"
    by (simp_all add: isolated_nodes_def nodes_def)
  with no_edges_singletons[OF h, of 0] h show ?thesis by simp
qed

text \<open>
  Claim C8. \<^verbatim>\<open>forEachConnectedComponentOrder\<close> calls its callback as many times as
  \<^verbatim>\<open>forEachConnectedComponent\<close> does, and the argument of each call is the length of
  the component that \<^verbatim>\<open>forEachConnectedComponent\<close> passes at the same position.
\<close>

theorem order_variant_emits_lengths:
  "forEachConnectedComponentOrder g = map length (forEachConnectedComponent g)"
  by (simp add: forEachConnectedComponentOrder_def forEachConnectedComponent_def
      order_nodes_component_nodes)

text \<open>
  Claim C9. A run of \<^verbatim>\<open>forEachConnectedComponent\<close>, \<^verbatim>\<open>forEachConnectedComponentOrder\<close>,
  \<^verbatim>\<open>connectedComponents\<close> or \<^verbatim>\<open>largestConnectedComponent\<close> leaves the graph as it was, with
  its nodes, edges and attributes, and returns what the function of the graph's value
  gives.
\<close>

theorem weak_traversals_leave_graph:
  "forEachConnectedComponent_run g = (forEachConnectedComponent g, g) \<and>
   forEachConnectedComponentOrder_run g = (forEachConnectedComponentOrder g, g) \<and>
   connectedComponents_run g = (connectedComponents g, g) \<and>
   largestConnectedComponent_run g = (largestConnectedComponent g, g)"
  by (simp add: forEachConnectedComponent_run_def forEachConnectedComponent_def
      forEachConnectedComponentOrder_run_def forEachConnectedComponentOrder_def
      connectedComponents_run_def connectedComponents_def
      largestConnectedComponent_run_def largestConnectedComponent_def
      forEachConnectedComponent_nodes_run_eq forEachConnectedComponentOrder_nodes_run_eq
      largestConnectedComponent_nodes_run_eq)

text \<open>
  Claim C10. On a graph with zero nodes \<^verbatim>\<open>largestConnectedComponent\<close> returns the empty
  list.
\<close>

theorem largest_of_null_graph:
  "order g = 0 \<Longrightarrow> largestConnectedComponent g = []"
  by (simp add: largestConnectedComponent_def)

theorem largest_of_null_graph_witness:
  "order empty_graph = 0 \<and> largestConnectedComponent empty_graph = []"
  using largest_of_null_graph[of empty_graph] by (simp add: order_def empty_graph_def)

end
